theory Spec2Isabelle
  imports Main
begin

section \<open>Data model (Graph.h)\<close>

text \<open>
  \<^verbatim>\<open>static const int MAX_VERTICES = 101;\<close> bounds the \<^verbatim>\<open>vertices\<close> array and both
  dimensions of the table \<^verbatim>\<open>T\<close>.  The members are C++ \<^verbatim>\<open>int\<close>s; they are modelled as
  mathematical integers together with the limits of a 32-bit \<^verbatim>\<open>int\<close>, and every operation
  whose C++ behaviour is undefined (an index outside an array, a signed addition that leaves
  the range) is an explicit \<open>None\<close> of the model.
\<close>

definition MAX_VERTICES :: int where
  "MAX_VERTICES = 101"

definition INT_MAX :: int where
  "INT_MAX = 2147483647"

definition INT_MIN :: int where
  "INT_MIN = - 2147483648"

definition inBounds :: "int \<Rightarrow> bool" where
  "inBounds i \<longleftrightarrow> 0 \<le> i \<and> i < MAX_VERTICES"

text \<open>
  \<^verbatim>\<open>struct EdgeNode { int adjVertex; int weight; EdgeNode* nextEdge; }\<close>: an adjacency list
  is a singly linked, null-terminated chain owned by its vertex slot; it is modelled as the
  list of its nodes in link order, \<^verbatim>\<open>nullptr\<close> being the empty list.
\<close>

record EdgeNode =
  adjVertex :: int
  weight :: int

text \<open>\<^verbatim>\<open>struct VertexNode { EdgeNode* edgeHead; Vertex* data; }\<close>; a \<^verbatim>\<open>Vertex\<close> wraps a string.\<close>

record VertexNode =
  edgeHead :: "EdgeNode list"
  data :: "string option"

text \<open>\<^verbatim>\<open>struct Table { bool visited; int dist; int path; }\<close>\<close>

record Table =
  visited :: bool
  dist :: int
  path :: int

type_synonym table = "int \<Rightarrow> int \<Rightarrow> Table"

text \<open>The data members of \<^verbatim>\<open>class Graph\<close>: \<^verbatim>\<open>vertices\<close>, \<^verbatim>\<open>size\<close> and \<^verbatim>\<open>T\<close>.\<close>

record Graph =
  vertices :: "int \<Rightarrow> VertexNode"
  gsize :: int
  T :: table

definition setEdgeHead :: "Graph \<Rightarrow> int \<Rightarrow> EdgeNode list \<Rightarrow> Graph" where
  "setEdgeHead g v es = g\<lparr>vertices := (vertices g)(v := (vertices g v)\<lparr>edgeHead := es\<rparr>)\<rparr>"

text \<open>The default constructor; the table is left uninitialised by the source.\<close>

definition emptyGraph :: "table \<Rightarrow> Graph" where
  "emptyGraph tb = \<lparr>vertices = (\<lambda>i. \<lparr>edgeHead = [], data = None\<rparr>), gsize = 0, T = tb\<rparr>"

section \<open>Graph::insertEdge\<close>

text \<open>
  The \<^verbatim>\<open>while (current->nextEdge != nullptr)\<close> loop of \<^verbatim>\<open>insertEdge\<close>, entered with a
  non-null \<^verbatim>\<open>current\<close>; the second argument is the chain behind \<^verbatim>\<open>current\<close>.  The
  destination of a node is compared only while the node has a successor; after the loop the
  new node is linked behind \<^verbatim>\<open>current\<close>.
\<close>

fun insertWalk :: "int \<Rightarrow> int \<Rightarrow> EdgeNode \<Rightarrow> EdgeNode list \<Rightarrow> EdgeNode list" where
  "insertWalk d w current [] = [current, \<lparr>adjVertex = d, weight = w\<rparr>]"
| "insertWalk d w current (n # rest) =
     (if adjVertex current = d then current\<lparr>weight := w\<rparr> # n # rest
      else current # insertWalk d w n rest)"

definition insertEdge :: "Graph \<Rightarrow> int \<Rightarrow> int \<Rightarrow> int \<Rightarrow> (bool \<times> Graph) option" where
  "insertEdge g sourceVertex destinationVertex w =
     (if w < 0 then Some (False, g)
      else if \<not> inBounds sourceVertex then None
      else (case edgeHead (vertices g sourceVertex) of
              [] \<Rightarrow> Some (True, setEdgeHead g sourceVertex
                                 [\<lparr>adjVertex = destinationVertex, weight = w\<rparr>])
            | current # rest \<Rightarrow>
                Some (True, setEdgeHead g sourceVertex
                              (insertWalk destinationVertex w current rest))))"

section \<open>Graph::removeEdge\<close>

text \<open>
  The walk \<^verbatim>\<open>while (current != nullptr && current->adjVertex != destinationVertex)\<close>: the
  second argument is the chain up to \<^verbatim>\<open>previous\<close>, the third the chain from
  \<^verbatim>\<open>current\<close>.  \<open>None\<close> is the exit with \<^verbatim>\<open>current == nullptr\<close>.
\<close>

fun removeWalk :: "int \<Rightarrow> EdgeNode list \<Rightarrow> EdgeNode list \<Rightarrow> EdgeNode list option" where
  "removeWalk d prev [] = None"
| "removeWalk d prev (current # rest) =
     (if adjVertex current \<noteq> d then removeWalk d (prev @ [current]) rest
      else Some (prev @ rest))"

definition removeEdge :: "Graph \<Rightarrow> int \<Rightarrow> int \<Rightarrow> (bool \<times> Graph) option" where
  "removeEdge g sourceVertex destinationVertex =
     (if \<not> inBounds sourceVertex then None
      else (case edgeHead (vertices g sourceVertex) of
              [] \<Rightarrow> Some (False, g)
            | h # rest \<Rightarrow>
                if adjVertex h = destinationVertex
                then Some (True, setEdgeHead g sourceVertex rest)
                else (case removeWalk destinationVertex [] (h # rest) of
                        None \<Rightarrow> Some (False, g)
                      | Some es \<Rightarrow> Some (True, setEdgeHead g sourceVertex es))))"

section \<open>Graph::clearGraph\<close>

text \<open>
  The \<^verbatim>\<open>for (int i = 1; i <= size; i++)\<close> loop: every node of the list of slot \<open>i\<close> is
  deleted, then \<^verbatim>\<open>edgeHead\<close> and \<^verbatim>\<open>data\<close> are set to \<^verbatim>\<open>nullptr\<close>.  The member
  \<^verbatim>\<open>size\<close> is not assigned.
\<close>

function clearLoop :: "Graph \<Rightarrow> int \<Rightarrow> Graph option" where
  "clearLoop g i =
     (if i \<le> gsize g then
        (if \<not> inBounds i then None
         else clearLoop (g\<lparr>vertices := (vertices g)(i := \<lparr>edgeHead = [], data = None\<rparr>)\<rparr>) (i + 1))
      else Some g)"
  by pat_completeness auto
termination
  by (relation "measure (\<lambda>(g, i). nat (gsize g + 1 - i))") auto

definition clearGraph :: "Graph \<Rightarrow> Graph option" where
  "clearGraph g = (if gsize g > 0 then clearLoop g 1 else Some g)"

section \<open>Graph::findShortestPath and its helpers\<close>

text \<open>
  The table \<^verbatim>\<open>T\<close> is the only member the shortest-path functions assign; they are
  modelled on the table alone, reading \<^verbatim>\<open>size\<close> and \<^verbatim>\<open>vertices\<close> from the graph.
\<close>

text \<open>
  \<^verbatim>\<open>lowestWeightVertex\<close>: the scan \<^verbatim>\<open>for (int i = 1; i <= size; i++)\<close> with its two
  locals \<^verbatim>\<open>lowestWeight\<close> and \<^verbatim>\<open>returnVertex\<close>.
\<close>

function lowestWeightLoop :: "Graph \<Rightarrow> table \<Rightarrow> int \<Rightarrow> int \<Rightarrow> int \<Rightarrow> int \<Rightarrow> int option" where
  "lowestWeightLoop g tb source i lowestWeight returnVertex =
     (if i \<le> gsize g then
        (if \<not> (inBounds source \<and> inBounds i) then None
         else if visited (tb source i) = False \<and> dist (tb source i) < lowestWeight
              then lowestWeightLoop g tb source (i + 1) (dist (tb source i)) i
              else lowestWeightLoop g tb source (i + 1) lowestWeight returnVertex)
      else Some returnVertex)"
  by pat_completeness auto
termination
  by (relation "measure (\<lambda>(g, tb, source, i, lowestWeight, returnVertex). nat (gsize g + 1 - i))")
     auto

definition lowestWeightVertex :: "Graph \<Rightarrow> table \<Rightarrow> int \<Rightarrow> int option" where
  "lowestWeightVertex g tb source = lowestWeightLoop g tb source 1 INT_MAX 0"

text \<open>
  The inner \<^verbatim>\<open>while (current != nullptr)\<close> of \<^verbatim>\<open>findShortestPathHelper\<close> over the
  adjacency list of the selected vertex.  The sum \<^verbatim>\<open>T[source][vertex].dist + current->weight\<close>
  is a signed \<^verbatim>\<open>int\<close> addition.
\<close>

fun relaxEdges :: "table \<Rightarrow> int \<Rightarrow> int \<Rightarrow> EdgeNode list \<Rightarrow> table option" where
  "relaxEdges tb source vertex [] = Some tb"
| "relaxEdges tb source vertex (current # rest) =
     (if \<not> inBounds (adjVertex current) then None
      else if visited (tb source (adjVertex current)) = False then
        (if dist (tb source vertex) + weight current < INT_MIN
            \<or> dist (tb source vertex) + weight current > INT_MAX then None
         else if dist (tb source (adjVertex current)) > dist (tb source vertex) + weight current
         then relaxEdges
                (tb(source := (tb source)(adjVertex current :=
                      (tb source (adjVertex current))
                        \<lparr>dist := dist (tb source vertex) + weight current, path := vertex\<rparr>)))
                source vertex rest
         else relaxEdges tb source vertex rest)
      else relaxEdges tb source vertex rest)"

text \<open>The loop \<^verbatim>\<open>for (int i = 1; i < size; i++)\<close> of \<^verbatim>\<open>findShortestPathHelper\<close>.\<close>

function helperLoop :: "Graph \<Rightarrow> int \<Rightarrow> int \<Rightarrow> table \<Rightarrow> table option" where
  "helperLoop g source i tb =
     (if i < gsize g then
        (case lowestWeightVertex g tb source of
           None \<Rightarrow> None
         | Some vertex \<Rightarrow>
             if vertex > 0 then
               (if \<not> inBounds vertex then None
                else (case relaxEdges
                             (tb(source := (tb source)(vertex :=
                                   (tb source vertex)\<lparr>visited := True\<rparr>)))
                             source vertex (edgeHead (vertices g vertex)) of
                        None \<Rightarrow> None
                      | Some tb' \<Rightarrow> helperLoop g source (i + 1) tb'))
             else Some tb)
      else Some tb)"
  by pat_completeness auto
termination
  by (relation "measure (\<lambda>(g, source, i, tb). nat (gsize g - i))") auto

definition findShortestPathHelper :: "Graph \<Rightarrow> int \<Rightarrow> table \<Rightarrow> table option" where
  "findShortestPathHelper g source tb =
     (if \<not> inBounds source then None
      else helperLoop g source 1
             (tb(source := (tb source)(source :=
                   (tb source source)\<lparr>dist := 0, path := source\<rparr>))))"

text \<open>The initialisation of all \<open>101 \<times> 101\<close> entries at the start of \<^verbatim>\<open>findShortestPath\<close>.\<close>

definition initTable :: "table \<Rightarrow> table" where
  "initTable tb =
     (\<lambda>row column. if inBounds row \<and> inBounds column
                    then \<lparr>visited = False, dist = INT_MAX, path = 0\<rparr>
                    else tb row column)"

text \<open>The loop \<^verbatim>\<open>for (int i = 1; i <= size; i++) findShortestPathHelper(i);\<close>\<close>

function allSourcesLoop :: "Graph \<Rightarrow> int \<Rightarrow> table \<Rightarrow> table option" where
  "allSourcesLoop g i tb =
     (if i \<le> gsize g then
        (case findShortestPathHelper g i tb of
           None \<Rightarrow> None
         | Some tb' \<Rightarrow> allSourcesLoop g (i + 1) tb')
      else Some tb)"
  by pat_completeness auto
termination
  by (relation "measure (\<lambda>(g, i, tb). nat (gsize g + 1 - i))") auto

definition findShortestPath :: "Graph \<Rightarrow> Graph option" where
  "findShortestPath g =
     (case allSourcesLoop g 1 (initTable (T g)) of
        None \<Rightarrow> None
      | Some tb \<Rightarrow> Some (g\<lparr>T := tb\<rparr>))"

subsection \<open>The addition of the compiled program\<close>

text \<open>
  A sum \<^verbatim>\<open>T[source][vertex].dist + current->weight\<close> that leaves the range of \<^verbatim>\<open>int\<close> has
  no result in C++ (\<open>None\<close> above).  The machines the program is compiled for add 32-bit
  integers in two's complement, where the sum wraps around modulo \<open>2^32\<close>; \<open>wrapInt\<close> is
  that result.  The functions below are the relaxation, \<^verbatim>\<open>findShortestPathHelper\<close> and
  \<^verbatim>\<open>findShortestPath\<close> once more, with this addition in the place of the checked one and
  nothing else changed; they tell what the compiled program stores in the table when a
  sum overflows.
\<close>

definition wrapInt :: "int \<Rightarrow> int" where
  "wrapInt x = (x + 2147483648) mod 4294967296 - 2147483648"

fun relaxEdges_wrap :: "table \<Rightarrow> int \<Rightarrow> int \<Rightarrow> EdgeNode list \<Rightarrow> table option" where
  "relaxEdges_wrap tb source vertex [] = Some tb"
| "relaxEdges_wrap tb source vertex (current # rest) =
     (if \<not> inBounds (adjVertex current) then None
      else if visited (tb source (adjVertex current)) = False then
        (if dist (tb source (adjVertex current))
              > wrapInt (dist (tb source vertex) + weight current)
         then relaxEdges_wrap
                (tb(source := (tb source)(adjVertex current :=
                      (tb source (adjVertex current))
                        \<lparr>dist := wrapInt (dist (tb source vertex) + weight current),
                         path := vertex\<rparr>)))
                source vertex rest
         else relaxEdges_wrap tb source vertex rest)
      else relaxEdges_wrap tb source vertex rest)"

function helperLoop_wrap :: "Graph \<Rightarrow> int \<Rightarrow> int \<Rightarrow> table \<Rightarrow> table option" where
  "helperLoop_wrap g source i tb =
     (if i < gsize g then
        (case lowestWeightVertex g tb source of
           None \<Rightarrow> None
         | Some vertex \<Rightarrow>
             if vertex > 0 then
               (if \<not> inBounds vertex then None
                else (case relaxEdges_wrap
                             (tb(source := (tb source)(vertex :=
                                   (tb source vertex)\<lparr>visited := True\<rparr>)))
                             source vertex (edgeHead (vertices g vertex)) of
                        None \<Rightarrow> None
                      | Some tb' \<Rightarrow> helperLoop_wrap g source (i + 1) tb'))
             else Some tb)
      else Some tb)"
  by pat_completeness auto
termination
  by (relation "measure (\<lambda>(g, source, i, tb). nat (gsize g - i))") auto

definition findShortestPathHelper_wrap :: "Graph \<Rightarrow> int \<Rightarrow> table \<Rightarrow> table option" where
  "findShortestPathHelper_wrap g source tb =
     (if \<not> inBounds source then None
      else helperLoop_wrap g source 1
             (tb(source := (tb source)(source :=
                   (tb source source)\<lparr>dist := 0, path := source\<rparr>))))"

function allSourcesLoop_wrap :: "Graph \<Rightarrow> int \<Rightarrow> table \<Rightarrow> table option" where
  "allSourcesLoop_wrap g i tb =
     (if i \<le> gsize g then
        (case findShortestPathHelper_wrap g i tb of
           None \<Rightarrow> None
         | Some tb' \<Rightarrow> allSourcesLoop_wrap g (i + 1) tb')
      else Some tb)"
  by pat_completeness auto
termination
  by (relation "measure (\<lambda>(g, i, tb). nat (gsize g + 1 - i))") auto

definition findShortestPath_wrap :: "Graph \<Rightarrow> Graph option" where
  "findShortestPath_wrap g =
     (case allSourcesLoop_wrap g 1 (initTable (T g)) of
        None \<Rightarrow> None
      | Some tb \<Rightarrow> Some (g\<lparr>T := tb\<rparr>))"

section \<open>Graph::printPath\<close>

text \<open>
  The recursion of \<^verbatim>\<open>printPath\<close> follows the \<^verbatim>\<open>path\<close> entries of the table and need not
  end on an arbitrary table; the result is the sequence of vertex numbers written to
  \<^verbatim>\<open>cout\<close>, and \<open>None\<close> stands for a call that does not return (or reads outside the table).
\<close>

partial_function (option) printPath :: "table \<Rightarrow> int \<Rightarrow> int \<Rightarrow> int list option" where
  "printPath tb source destination =
     (if \<not> (inBounds source \<and> inBounds destination) then None
      else if path (tb source destination) > 0 then
        (if source \<noteq> destination then
           Option.bind (printPath tb source (path (tb source destination)))
             (\<lambda>printed. Some (printed @ [destination]))
         else Some [destination])
      else Some [])"

declare printPath.simps [code]

declare clearLoop.simps [simp del]
declare lowestWeightLoop.simps [simp del]
declare helperLoop.simps [simp del]
declare allSourcesLoop.simps [simp del]
declare helperLoop_wrap.simps [simp del]
declare allSourcesLoop_wrap.simps [simp del]

section \<open>Copying: the graph as pointers into a store\<close>

text \<open>
  Copying is about what two \<^verbatim>\<open>Graph\<close> objects share, so here the objects, their
  \<^verbatim>\<open>EdgeNode\<close>s and their \<^verbatim>\<open>Vertex\<close> objects live at addresses of one store, and
  \<^verbatim>\<open>nextEdge\<close>, \<^verbatim>\<open>edgeHead\<close> and \<^verbatim>\<open>data\<close> are pointers (\<open>None\<close> is \<^verbatim>\<open>nullptr\<close>).
  \<^verbatim>\<open>new\<close> takes the next address of a counter, which no live object has; \<^verbatim>\<open>delete\<close>
  frees the address.  Dereferencing \<^verbatim>\<open>nullptr\<close> or a freed address, and deleting a freed
  address, is undefined in C++ and \<open>None\<close> here.
\<close>

type_synonym addr = nat

record HeapEdgeNode = EdgeNode +
  nextEdge :: "addr option"

record VertexNodePtr =
  edgeHeadPtr :: "addr option"
  dataPtr :: "addr option"

record GraphObj =
  verticesPtr :: "int \<Rightarrow> VertexNodePtr"
  sizeObj :: int
  tableObj :: table

record store =
  edgeNodes :: "addr \<Rightarrow> HeapEdgeNode option"
  vertexObjs :: "addr \<Rightarrow> string option"
  graphObjs :: "addr \<Rightarrow> GraphObj option"
  nextAddr :: addr

text \<open>\<^verbatim>\<open>new EdgeNode\<close> and \<^verbatim>\<open>new Vertex\<close>: the new object is at \<open>nextAddr\<close> of the store before.\<close>

definition newEdgeNode :: "store \<Rightarrow> HeapEdgeNode \<Rightarrow> store" where
  "newEdgeNode h n = h\<lparr>edgeNodes := (edgeNodes h)(nextAddr h \<mapsto> n), nextAddr := Suc (nextAddr h)\<rparr>"

definition newVertex :: "store \<Rightarrow> string \<Rightarrow> store" where
  "newVertex h l = h\<lparr>vertexObjs := (vertexObjs h)(nextAddr h \<mapsto> l), nextAddr := Suc (nextAddr h)\<rparr>"

definition putGraph :: "store \<Rightarrow> addr \<Rightarrow> GraphObj \<Rightarrow> store" where
  "putGraph h this G = h\<lparr>graphObjs := (graphObjs h)(this \<mapsto> G)\<rparr>"

definition withEdgeHead :: "GraphObj \<Rightarrow> int \<Rightarrow> addr option \<Rightarrow> GraphObj" where
  "withEdgeHead G i p = G\<lparr>verticesPtr := (verticesPtr G)(i := (verticesPtr G i)\<lparr>edgeHeadPtr := p\<rparr>)\<rparr>"

definition withData :: "GraphObj \<Rightarrow> int \<Rightarrow> addr option \<Rightarrow> GraphObj" where
  "withData G i p = G\<lparr>verticesPtr := (verticesPtr G)(i := (verticesPtr G i)\<lparr>dataPtr := p\<rparr>)\<rparr>"

subsection \<open>clearGraph on the store\<close>

text \<open>The inner \<^verbatim>\<open>while (current != nullptr) { temp = current; current = current->nextEdge; delete temp; }\<close>\<close>

partial_function (option) deleteEdges :: "store \<Rightarrow> addr option \<Rightarrow> store option" where
  "deleteEdges h current =
     (case current of
        None \<Rightarrow> Some h
      | Some temp \<Rightarrow>
          (case edgeNodes h temp of
             None \<Rightarrow> None
           | Some n \<Rightarrow> deleteEdges (h\<lparr>edgeNodes := (edgeNodes h)(temp := None)\<rparr>) (nextEdge n)))"

text \<open>\<^verbatim>\<open>delete vertices[i].data;\<close> (deleting \<^verbatim>\<open>nullptr\<close> does nothing).\<close>

definition deleteVertex :: "store \<Rightarrow> addr option \<Rightarrow> store option" where
  "deleteVertex h p =
     (case p of
        None \<Rightarrow> Some h
      | Some d \<Rightarrow>
          (case vertexObjs h d of
             None \<Rightarrow> None
           | Some l \<Rightarrow> Some (h\<lparr>vertexObjs := (vertexObjs h)(d := None)\<rparr>)))"

text \<open>The loop over the slots; \<open>n\<close> is the member \<^verbatim>\<open>size\<close>, which the loop does not assign.\<close>

function clearLoopStore :: "store \<Rightarrow> addr \<Rightarrow> int \<Rightarrow> int \<Rightarrow> store option" where
  "clearLoopStore h this n i =
     (if i \<le> n then
        (if \<not> inBounds i then None
         else (case graphObjs h this of
                 None \<Rightarrow> None
               | Some G \<Rightarrow>
                   (case deleteEdges h (edgeHeadPtr (verticesPtr G i)) of
                      None \<Rightarrow> None
                    | Some h1 \<Rightarrow>
                        (case deleteVertex h1 (dataPtr (verticesPtr G i)) of
                           None \<Rightarrow> None
                         | Some h2 \<Rightarrow>
                             clearLoopStore
                               (putGraph h2 this (withData (withEdgeHead G i None) i None))
                               this n (i + 1)))))
      else Some h)"
  by pat_completeness auto
termination
  by (relation "measure (\<lambda>(h, this, n, i). nat (n + 1 - i))") auto

definition clearGraphStore :: "store \<Rightarrow> addr \<Rightarrow> store option" where
  "clearGraphStore h this =
     (case graphObjs h this of
        None \<Rightarrow> None
      | Some G \<Rightarrow> if sizeObj G > 0 then clearLoopStore h this (sizeObj G) 1 else Some h)"

subsection \<open>copyGraph, the copy constructor and operator=\<close>

text \<open>
  The \<^verbatim>\<open>while (fromGraphEdgeNode != nullptr)\<close> loop of \<^verbatim>\<open>copyGraph\<close>: a new node takes
  the fields of the source node and is linked behind \<^verbatim>\<open>current\<close>.
\<close>

partial_function (option) copyEdges :: "store \<Rightarrow> addr \<Rightarrow> addr option \<Rightarrow> store option" where
  "copyEdges h current fromGraphEdgeNode =
     (case fromGraphEdgeNode of
        None \<Rightarrow> Some h
      | Some f \<Rightarrow>
          (case edgeNodes h f of
             None \<Rightarrow> None
           | Some fn \<Rightarrow>
               (case edgeNodes (newEdgeNode h \<lparr>adjVertex = adjVertex fn, weight = weight fn,
                                               nextEdge = None\<rparr>) current of
                  None \<Rightarrow> None
                | Some cn \<Rightarrow>
                    copyEdges
                      ((newEdgeNode h \<lparr>adjVertex = adjVertex fn, weight = weight fn,
                                       nextEdge = None\<rparr>)
                         \<lparr>edgeNodes :=
                            (edgeNodes (newEdgeNode h \<lparr>adjVertex = adjVertex fn,
                                                       weight = weight fn, nextEdge = None\<rparr>))
                              (current \<mapsto> cn\<lparr>nextEdge := Some (nextAddr h)\<rparr>)\<rparr>)
                      (nextAddr h) (nextEdge fn))))"

text \<open>
  One iteration of \<^verbatim>\<open>for (int i = 1; i <= size; i++)\<close> in \<^verbatim>\<open>copyGraph\<close>, for
  \<^verbatim>\<open>this != &fromGraph\<close>: a new \<^verbatim>\<open>Vertex\<close> receives the source label by value, the head
  node is copied if the source list has one, and \<open>copyEdges\<close> copies the rest.
\<close>

definition copySlot :: "store \<Rightarrow> addr \<Rightarrow> addr \<Rightarrow> int \<Rightarrow> store option" where
  "copySlot h this fromGraph i =
     (case (graphObjs h this, graphObjs h fromGraph) of
        (Some G, Some F) \<Rightarrow>
          (case dataPtr (verticesPtr F i) of
             None \<Rightarrow> None
           | Some fd \<Rightarrow>
               (case vertexObjs (newVertex h []) fd of
                  None \<Rightarrow> None
                | Some l \<Rightarrow>
                    (case edgeHeadPtr (verticesPtr F i) of
                       None \<Rightarrow>
                         Some (putGraph
                                 ((newVertex h [])\<lparr>vertexObjs :=
                                     (vertexObjs (newVertex h []))(nextAddr h \<mapsto> l)\<rparr>)
                                 this
                                 (withEdgeHead (withData G i (Some (nextAddr h))) i None))
                     | Some f \<Rightarrow>
                         (case edgeNodes h f of
                            None \<Rightarrow> None
                          | Some fn \<Rightarrow>
                              copyEdges
                                (putGraph
                                   (newEdgeNode
                                      ((newVertex h [])\<lparr>vertexObjs :=
                                          (vertexObjs (newVertex h []))(nextAddr h \<mapsto> l)\<rparr>)
                                      \<lparr>adjVertex = adjVertex fn, weight = weight fn,
                                       nextEdge = None\<rparr>)
                                   this
                                   (withEdgeHead (withData G i (Some (nextAddr h))) i
                                      (Some (Suc (nextAddr h)))))
                                (Suc (nextAddr h)) (nextEdge fn)))))
      | _ \<Rightarrow> None)"

function copyLoop :: "store \<Rightarrow> addr \<Rightarrow> addr \<Rightarrow> int \<Rightarrow> int \<Rightarrow> store option" where
  "copyLoop h this fromGraph n i =
     (if i \<le> n then
        (if \<not> inBounds i then None
         else (case copySlot h this fromGraph i of
                 None \<Rightarrow> None
               | Some h1 \<Rightarrow> copyLoop h1 this fromGraph n (i + 1)))
      else Some h)"
  by pat_completeness auto
termination
  by (relation "measure (\<lambda>(h, this, fromGraph, n, i). nat (n + 1 - i))") auto

text \<open>The two nested loops that copy \<^verbatim>\<open>T\<close> entry by entry.\<close>

definition copyTable :: "table \<Rightarrow> table \<Rightarrow> table" where
  "copyTable tThis tFrom =
     (\<lambda>row column. if inBounds row \<and> inBounds column then tFrom row column
                    else tThis row column)"

text \<open>
  \<^verbatim>\<open>copyGraph\<close> is private and both callers pass another object than \<^verbatim>\<open>*this\<close>; the call
  with \<^verbatim>\<open>this == &fromGraph\<close> is not modelled.
\<close>

definition copyGraph :: "store \<Rightarrow> addr \<Rightarrow> addr \<Rightarrow> store option" where
  "copyGraph h this fromGraph =
     (if this = fromGraph then None
      else (case graphObjs h this of
              None \<Rightarrow> None
            | Some G \<Rightarrow>
                (case copyLoop h this fromGraph (sizeObj G) 1 of
                   None \<Rightarrow> None
                 | Some h1 \<Rightarrow>
                     (case (graphObjs h1 this, graphObjs h1 fromGraph) of
                        (Some G1, Some F1) \<Rightarrow>
                          Some (putGraph h1 this
                                  (G1\<lparr>tableObj := copyTable (tableObj G1) (tableObj F1)\<rparr>))
                      | _ \<Rightarrow> None))))"

text \<open>\<^verbatim>\<open>Graph& Graph::operator=(const Graph& fromGraph)\<close>, called on the object at \<open>this\<close>.\<close>

definition operatorAssign :: "store \<Rightarrow> addr \<Rightarrow> addr \<Rightarrow> store option" where
  "operatorAssign h this fromGraph =
     (if this \<noteq> fromGraph then
        (case clearGraphStore h this of
           None \<Rightarrow> None
         | Some h1 \<Rightarrow>
             (case (graphObjs h1 this, graphObjs h1 fromGraph) of
                (Some G, Some F) \<Rightarrow>
                  copyGraph (putGraph h1 this (G\<lparr>sizeObj := sizeObj F\<rparr>)) this fromGraph
              | _ \<Rightarrow> None))
      else Some h)"

text \<open>
  \<^verbatim>\<open>Graph::Graph(const Graph& graph)\<close>, constructing into the storage at \<open>this\<close> (whose
  contents before the call are arbitrary): all 101 slots are set to null pointers, then
  \<^verbatim>\<open>size\<close> is copied and \<^verbatim>\<open>copyGraph\<close> runs.
\<close>

definition copyConstructor :: "store \<Rightarrow> addr \<Rightarrow> addr \<Rightarrow> store option" where
  "copyConstructor h this graph =
     (case (graphObjs h this, graphObjs h graph) of
        (Some G, Some F) \<Rightarrow>
          copyGraph
            (putGraph h this
               (G\<lparr>verticesPtr := (\<lambda>i. if inBounds i then \<lparr>edgeHeadPtr = None, dataPtr = None\<rparr>
                                        else verticesPtr G i),
                  sizeObj := sizeObj F\<rparr>))
            this graph
      | _ \<Rightarrow> None)"

subsection \<open>insertEdge and removeEdge on the store\<close>

text \<open>
  The loop of \<^verbatim>\<open>insertEdge\<close> from \<^verbatim>\<open>current\<close>; \<open>newEdgeNode\<close> is the address of the node
  allocated at the start of the call, which is deleted again when a weight is updated.
\<close>

partial_function (option) insertWalkStore ::
  "store \<Rightarrow> addr \<Rightarrow> addr \<Rightarrow> int \<Rightarrow> int \<Rightarrow> (bool \<times> store) option" where
  "insertWalkStore h current newNode d w =
     (case edgeNodes h current of
        None \<Rightarrow> None
      | Some c \<Rightarrow>
          (case nextEdge c of
             None \<Rightarrow>
               Some (True, h\<lparr>edgeNodes := (edgeNodes h)(current \<mapsto> c\<lparr>nextEdge := Some newNode\<rparr>)\<rparr>)
           | Some nx \<Rightarrow>
               if adjVertex c = d
               then Some (True, h\<lparr>edgeNodes :=
                                    ((edgeNodes h)(current \<mapsto> c\<lparr>weight := w\<rparr>))(newNode := None)\<rparr>)
               else insertWalkStore h nx newNode d w))"

definition insertEdgeStore ::
  "store \<Rightarrow> addr \<Rightarrow> int \<Rightarrow> int \<Rightarrow> int \<Rightarrow> (bool \<times> store) option" where
  "insertEdgeStore h this sourceVertex destinationVertex w =
     (if w < 0 then Some (False, h)
      else if \<not> inBounds sourceVertex then None
      else (case graphObjs h this of
              None \<Rightarrow> None
            | Some G \<Rightarrow>
                (case edgeHeadPtr (verticesPtr G sourceVertex) of
                   None \<Rightarrow>
                     Some (True,
                       putGraph
                         (newEdgeNode h \<lparr>adjVertex = destinationVertex, weight = w,
                                         nextEdge = None\<rparr>)
                         this (withEdgeHead G sourceVertex (Some (nextAddr h))))
                 | Some current \<Rightarrow>
                     insertWalkStore
                       (newEdgeNode h \<lparr>adjVertex = destinationVertex, weight = w,
                                       nextEdge = None\<rparr>)
                       current (nextAddr h) destinationVertex w)))"

text \<open>
  The walk of \<^verbatim>\<open>removeEdge\<close> with its two pointers \<^verbatim>\<open>previous\<close> and \<^verbatim>\<open>current\<close>.
\<close>

partial_function (option) removeWalkStore ::
  "store \<Rightarrow> addr option \<Rightarrow> addr option \<Rightarrow> int \<Rightarrow> (bool \<times> store) option" where
  "removeWalkStore h previous current d =
     (case current of
        None \<Rightarrow> Some (False, h)
      | Some c \<Rightarrow>
          (case edgeNodes h c of
             None \<Rightarrow> None
           | Some cn \<Rightarrow>
               if adjVertex cn \<noteq> d then removeWalkStore h (Some c) (nextEdge cn) d
               else (case previous of
                       None \<Rightarrow> None
                     | Some p \<Rightarrow>
                         (case edgeNodes h p of
                            None \<Rightarrow> None
                          | Some pn \<Rightarrow>
                              Some (True, h\<lparr>edgeNodes :=
                                ((edgeNodes h)(p \<mapsto> pn\<lparr>nextEdge := nextEdge cn\<rparr>))(c := None)\<rparr>)))))"

definition removeEdgeStore :: "store \<Rightarrow> addr \<Rightarrow> int \<Rightarrow> int \<Rightarrow> (bool \<times> store) option" where
  "removeEdgeStore h this sourceVertex destinationVertex =
     (if \<not> inBounds sourceVertex then None
      else (case graphObjs h this of
              None \<Rightarrow> None
            | Some G \<Rightarrow>
                (case edgeHeadPtr (verticesPtr G sourceVertex) of
                   None \<Rightarrow> Some (False, h)
                 | Some current \<Rightarrow>
                     (case edgeNodes h current of
                        None \<Rightarrow> None
                      | Some hn \<Rightarrow>
                          if adjVertex hn = destinationVertex
                          then Some (True,
                                 (putGraph h this (withEdgeHead G sourceVertex (nextEdge hn)))
                                   \<lparr>edgeNodes := (edgeNodes h)(current := None)\<rparr>)
                          else removeWalkStore h None (Some current) destinationVertex))))"

subsection \<open>What a pointer stands for\<close>

text \<open>
  \<open>heapList h p as es\<close>: in the store \<open>h\<close> the pointer \<open>p\<close> is the head of a null-terminated
  chain whose nodes are at the addresses \<open>as\<close>, in link order, and hold the edges \<open>es\<close>.
\<close>

fun heapList :: "store \<Rightarrow> addr option \<Rightarrow> addr list \<Rightarrow> EdgeNode list \<Rightarrow> bool" where
  "heapList h p [] [] = (p = None)"
| "heapList h p (a # as) (e # es) =
     (p = Some a \<and>
      (case edgeNodes h a of
         None \<Rightarrow> False
       | Some n \<Rightarrow> adjVertex n = adjVertex e \<and> weight n = weight e
                   \<and> heapList h (nextEdge n) as es))"
| "heapList h p as es = False"

text \<open>
  The object \<open>G\<close> has, in every slot of its array, a list at the addresses \<open>fp i\<close> holding the
  edges \<open>es i\<close>, and the lists of two slots have no node in common.
\<close>

definition ownsLists ::
  "store \<Rightarrow> GraphObj \<Rightarrow> (int \<Rightarrow> addr list) \<Rightarrow> (int \<Rightarrow> EdgeNode list) \<Rightarrow> bool" where
  "ownsLists h G fp es \<longleftrightarrow>
     (\<forall>i. inBounds i \<longrightarrow> heapList h (edgeHeadPtr (verticesPtr G i)) (fp i) (es i))
     \<and> (\<forall>i j. inBounds i \<and> inBounds j \<and> i \<noteq> j \<longrightarrow> set (fp i) \<inter> set (fp j) = {})"

text \<open>
  The slots \<open>1..size\<close> of \<open>G\<close> point to live \<^verbatim>\<open>Vertex\<close> objects at the addresses \<open>dp i\<close>, one
  per slot, holding the labels \<open>ls i\<close>.
\<close>

definition ownsLabels ::
  "store \<Rightarrow> GraphObj \<Rightarrow> (int \<Rightarrow> addr) \<Rightarrow> (int \<Rightarrow> string) \<Rightarrow> bool" where
  "ownsLabels h G dp ls \<longleftrightarrow>
     (\<forall>i. 1 \<le> i \<and> i \<le> sizeObj G \<longrightarrow>
          dataPtr (verticesPtr G i) = Some (dp i) \<and> vertexObjs h (dp i) = Some (ls i))
     \<and> (\<forall>i j. 1 \<le> i \<and> i \<le> sizeObj G \<and> 1 \<le> j \<and> j \<le> sizeObj G \<and> i \<noteq> j \<longrightarrow> dp i \<noteq> dp j)"

text \<open>Every live \<^verbatim>\<open>EdgeNode\<close> and \<^verbatim>\<open>Vertex\<close> is below the allocation counter.\<close>

definition allocatedBelow :: "store \<Rightarrow> bool" where
  "allocatedBelow h \<longleftrightarrow>
     (\<forall>a. edgeNodes h a \<noteq> None \<longrightarrow> a < nextAddr h)
     \<and> (\<forall>a. vertexObjs h a \<noteq> None \<longrightarrow> a < nextAddr h)"

text \<open>
  The graph object at \<open>a\<close> as a value: \<open>graphIs h a F fp es dp ls\<close> says that the object at
  \<open>a\<close> is \<open>F\<close>, with the lists \<open>es\<close> at the addresses \<open>fp\<close> and the labels \<open>ls\<close> at the
  addresses \<open>dp\<close>.
\<close>

definition graphIs ::
  "store \<Rightarrow> addr \<Rightarrow> GraphObj \<Rightarrow> (int \<Rightarrow> addr list) \<Rightarrow> (int \<Rightarrow> EdgeNode list)
     \<Rightarrow> (int \<Rightarrow> addr) \<Rightarrow> (int \<Rightarrow> string) \<Rightarrow> bool" where
  "graphIs h a F fp es dp ls \<longleftrightarrow>
     graphObjs h a = Some F \<and> sizeObj F < MAX_VERTICES
     \<and> ownsLists h F fp es \<and> ownsLabels h F dp ls"

text \<open>No node and no label of the one graph is a node or a label of the other.\<close>

definition disjointFrom ::
  "GraphObj \<Rightarrow> (int \<Rightarrow> addr list) \<Rightarrow> (int \<Rightarrow> addr)
     \<Rightarrow> GraphObj \<Rightarrow> (int \<Rightarrow> addr list) \<Rightarrow> (int \<Rightarrow> addr) \<Rightarrow> bool" where
  "disjointFrom G fpG dpG F fpF dpF \<longleftrightarrow>
     (\<forall>i j. inBounds i \<and> inBounds j \<longrightarrow> set (fpG i) \<inter> set (fpF j) = {})
     \<and> (\<forall>i j. 1 \<le> i \<and> i \<le> sizeObj G \<and> 1 \<le> j \<and> j \<le> sizeObj F \<longrightarrow> dpG i \<noteq> dpF j)"

text \<open>
  The store after the slots \<open>i..n\<close> of the object \<open>G\<close> at \<open>this\<close> have been cleared: the
  nodes at \<open>fp k\<close> and the labels at \<open>dp k\<close> of these slots are freed and the slots hold null
  pointers.
\<close>

definition clearedStore ::
  "store \<Rightarrow> addr \<Rightarrow> GraphObj \<Rightarrow> (int \<Rightarrow> addr list) \<Rightarrow> (int \<Rightarrow> addr) \<Rightarrow> int \<Rightarrow> int \<Rightarrow> store" where
  "clearedStore h this G fp dp i n =
     h\<lparr>edgeNodes := (\<lambda>a. if \<exists>k. i \<le> k \<and> k \<le> n \<and> a \<in> set (fp k) then None
                          else edgeNodes h a),
       vertexObjs := (\<lambda>a. if \<exists>k. i \<le> k \<and> k \<le> n \<and> a = dp k then None else vertexObjs h a),
       graphObjs := (graphObjs h)(this \<mapsto>
          G\<lparr>verticesPtr := (\<lambda>k. if i \<le> k \<and> k \<le> n
                                 then \<lparr>edgeHeadPtr = None, dataPtr = None\<rparr>
                                 else verticesPtr G k)\<rparr>)\<rparr>"

text \<open>
  The state of the loop of \<^verbatim>\<open>copyGraph\<close> before iteration \<open>i\<close>, relative to the store \<open>h0\<close>
  and the object \<open>G0\<close> at \<open>this\<close> the loop started from: the slots \<open>1..i-1\<close> of the object \<open>G\<close>
  now at \<open>this\<close> hold lists with the edges \<open>esF k\<close> and labels \<open>lsF k\<close> in objects allocated
  since, nothing that was allocated in \<open>h0\<close> has changed, and no other graph object has.
\<close>

definition copyInv ::
  "store \<Rightarrow> GraphObj \<Rightarrow> (int \<Rightarrow> EdgeNode list) \<Rightarrow> (int \<Rightarrow> string) \<Rightarrow> addr
     \<Rightarrow> store \<Rightarrow> GraphObj \<Rightarrow> (int \<Rightarrow> addr list) \<Rightarrow> (int \<Rightarrow> addr) \<Rightarrow> int \<Rightarrow> bool" where
  "copyInv h0 G0 esF lsF this h G fp dp i \<longleftrightarrow>
     graphObjs h this = Some G
     \<and> sizeObj G = sizeObj G0 \<and> tableObj G = tableObj G0
     \<and> (\<forall>k. \<not> (1 \<le> k \<and> k < i) \<longrightarrow> verticesPtr G k = verticesPtr G0 k)
     \<and> (\<forall>k. 1 \<le> k \<and> k < i \<longrightarrow>
           heapList h (edgeHeadPtr (verticesPtr G k)) (fp k) (esF k)
         \<and> (\<forall>a \<in> set (fp k). nextAddr h0 \<le> a \<and> a < nextAddr h)
         \<and> dataPtr (verticesPtr G k) = Some (dp k)
         \<and> nextAddr h0 \<le> dp k \<and> dp k < nextAddr h \<and> vertexObjs h (dp k) = Some (lsF k))
     \<and> (\<forall>k l. 1 \<le> k \<and> k < i \<and> 1 \<le> l \<and> l < i \<and> k \<noteq> l \<longrightarrow>
           set (fp k) \<inter> set (fp l) = {} \<and> dp k \<noteq> dp l)
     \<and> nextAddr h0 \<le> nextAddr h \<and> allocatedBelow h
     \<and> (\<forall>a. a < nextAddr h0 \<longrightarrow>
           edgeNodes h a = edgeNodes h0 a \<and> vertexObjs h a = vertexObjs h0 a)
     \<and> (\<forall>obj. obj \<noteq> this \<longrightarrow> graphObjs h obj = graphObjs h0 obj)"

text \<open>
  The list a slot holds after \<^verbatim>\<open>insertEdge\<close> with a weight \<open>\<ge> 0\<close> and after
  \<^verbatim>\<open>removeEdge\<close>, as the list-level functions \<open>insertEdge\<close> and \<open>removeEdge\<close> compute it.
\<close>

definition insertedList :: "int \<Rightarrow> int \<Rightarrow> EdgeNode list \<Rightarrow> EdgeNode list" where
  "insertedList d w es =
     (case es of [] \<Rightarrow> [\<lparr>adjVertex = d, weight = w\<rparr>] | current # rest \<Rightarrow> insertWalk d w current rest)"

definition removedList :: "int \<Rightarrow> EdgeNode list \<Rightarrow> EdgeNode list" where
  "removedList d es =
     (case es of
        [] \<Rightarrow> []
      | h # rest \<Rightarrow>
          if adjVertex h = d then rest
          else (case removeWalk d [] (h # rest) of None \<Rightarrow> h # rest | Some es' \<Rightarrow> es'))"

text \<open>The list behind a node that is not for \<open>d\<close>, after the walk of \<open>removeEdge\<close>.\<close>

definition walkedList :: "int \<Rightarrow> EdgeNode list \<Rightarrow> EdgeNode list" where
  "walkedList d es = (case removeWalk d [] es of None \<Rightarrow> es | Some es' \<Rightarrow> es')"

text \<open>Calls of the two mutators on one graph object, and a sequence of them.\<close>

datatype mutation = InsertEdge int int int | RemoveEdge int int

fun sourceOf :: "mutation \<Rightarrow> int" where
  "sourceOf (InsertEdge s d w) = s"
| "sourceOf (RemoveEdge s d) = s"

fun applyMutation :: "store \<Rightarrow> addr \<Rightarrow> mutation \<Rightarrow> store option" where
  "applyMutation h this (InsertEdge s d w) =
     (case insertEdgeStore h this s d w of None \<Rightarrow> None | Some (ok, h') \<Rightarrow> Some h')"
| "applyMutation h this (RemoveEdge s d) =
     (case removeEdgeStore h this s d of None \<Rightarrow> None | Some (ok, h') \<Rightarrow> Some h')"

fun applyMutations :: "store \<Rightarrow> addr \<Rightarrow> mutation list \<Rightarrow> store option" where
  "applyMutations h this [] = Some h"
| "applyMutations h this (m # ms) =
     (case applyMutation h this m of None \<Rightarrow> None | Some h' \<Rightarrow> applyMutations h' this ms)"

text \<open>The lists of the slots after a mutation, given the lists before.\<close>

fun listsAfter :: "(int \<Rightarrow> EdgeNode list) \<Rightarrow> mutation \<Rightarrow> (int \<Rightarrow> EdgeNode list)" where
  "listsAfter es (InsertEdge s d w) = (if w < 0 then es else es(s := insertedList d w (es s)))"
| "listsAfter es (RemoveEdge s d) = es(s := removedList d (es s))"

text \<open>
  Two graph objects of one store that share nothing: the object at \<open>this\<close> holds the lists
  \<open>esG\<close>, the object at \<open>other\<close> is \<open>F\<close> with its nodes and labels at \<open>fpF\<close> and \<open>dpF\<close>, and no
  node or label of the one is a node or label of the other.
\<close>

definition separateGraphs ::
  "store \<Rightarrow> addr \<Rightarrow> (int \<Rightarrow> EdgeNode list) \<Rightarrow> addr \<Rightarrow> GraphObj \<Rightarrow> (int \<Rightarrow> addr list)
     \<Rightarrow> (int \<Rightarrow> EdgeNode list) \<Rightarrow> (int \<Rightarrow> addr) \<Rightarrow> (int \<Rightarrow> string) \<Rightarrow> bool" where
  "separateGraphs h this esG other F fpF esF dpF lsF \<longleftrightarrow>
     this \<noteq> other \<and> allocatedBelow h \<and> graphIs h other F fpF esF dpF lsF
     \<and> (\<exists>G fpG dpG lsG. graphIs h this G fpG esG dpG lsG \<and> disjointFrom G fpG dpG F fpF dpF)"

text \<open>
  The graph at \<open>this\<close> is a copy of the graph \<open>F\<close> at \<open>other\<close> that shares nothing with it: the
  original is what it was; the copy has the size, the table entries, and in the slots
  \<open>1..size\<close> the edge lists and labels of the original, in nodes and \<^verbatim>\<open>Vertex\<close> objects of
  its own; and whatever sequence of \<^verbatim>\<open>insertEdge\<close> and \<^verbatim>\<open>removeEdge\<close> calls (with sources
  inside the array) is then made on the copy, and also when the copy is cleared, the original
  is still what it was.
\<close>

definition independentCopy ::
  "store \<Rightarrow> addr \<Rightarrow> addr \<Rightarrow> GraphObj \<Rightarrow> (int \<Rightarrow> addr list) \<Rightarrow> (int \<Rightarrow> EdgeNode list)
     \<Rightarrow> (int \<Rightarrow> addr) \<Rightarrow> (int \<Rightarrow> string) \<Rightarrow> bool" where
  "independentCopy h this other F fpF esF dpF lsF \<longleftrightarrow>
     graphIs h other F fpF esF dpF lsF
     \<and> (\<exists>G' fp' es' dp'.
          graphIs h this G' fp' es' dp' lsF
        \<and> sizeObj G' = sizeObj F
        \<and> (\<forall>i. 1 \<le> i \<and> i \<le> sizeObj F \<longrightarrow> es' i = esF i)
        \<and> (\<forall>r c. inBounds r \<and> inBounds c \<longrightarrow> tableObj G' r c = tableObj F r c)
        \<and> disjointFrom G' fp' dp' F fpF dpF)
     \<and> (\<forall>ms. list_all (\<lambda>m. inBounds (sourceOf m)) ms \<longrightarrow>
           (\<exists>h'. applyMutations h this ms = Some h' \<and> graphIs h' other F fpF esF dpF lsF))
     \<and> (\<exists>h'. clearGraphStore h this = Some h' \<and> graphIs h' other F fpF esF dpF lsF)"

declare clearLoopStore.simps [simp del]
declare copyLoop.simps [simp del]
declare deleteEdges.simps [code]
declare copyEdges.simps [code]
declare insertWalkStore.simps [code]
declare removeWalkStore.simps [code]

section \<open>Auxiliary notions for the statements\<close>

text \<open>A graph as \<^verbatim>\<open>Graph()\<close> leaves it, with some table contents.\<close>

definition tableZero :: table where
  "tableZero = (\<lambda>row column. \<lparr>visited = False, dist = 0, path = 0\<rparr>)"

definition G0 :: Graph where
  "G0 = emptyGraph tableZero"

text \<open>
  The graph of the scenario with vertices \<open>A\<close>, \<open>B\<close>, \<open>C\<close> and the edges \<open>(1,2,5)\<close>, \<open>(2,3,2)\<close>,
  \<open>(1,3,10)\<close>, as \<^verbatim>\<open>buildGraph\<close> stores it when the edges are read in the order
  \<open>(1,2,5)\<close>, \<open>(1,3,10)\<close>, \<open>(2,3,2)\<close>.
\<close>

definition G3 :: Graph where
  "G3 = \<lparr>vertices = (\<lambda>i. \<lparr>edgeHead = [], data = None\<rparr>)
           (1 := \<lparr>edgeHead = [\<lparr>adjVertex = 2, weight = 5\<rparr>, \<lparr>adjVertex = 3, weight = 10\<rparr>],
                  data = Some ''A''\<rparr>,
            2 := \<lparr>edgeHead = [\<lparr>adjVertex = 3, weight = 2\<rparr>], data = Some ''B''\<rparr>,
            3 := \<lparr>edgeHead = [], data = Some ''C''\<rparr>),
          gsize = 3, T = tableZero\<rparr>"

text \<open>
  Three vertices without edges, and the graph that \<^verbatim>\<open>insertEdge(1, 2, 2147483646)\<close> and
  \<^verbatim>\<open>insertEdge(2, 3, 5)\<close> make of them: the two weights are non-negative, and their sum is
  above \<^verbatim>\<open>INT_MAX\<close>.
\<close>

definition V3 :: Graph where
  "V3 = \<lparr>vertices = (\<lambda>i. \<lparr>edgeHead = [], data = None\<rparr>)
           (1 := \<lparr>edgeHead = [], data = Some ''A''\<rparr>,
            2 := \<lparr>edgeHead = [], data = Some ''B''\<rparr>,
            3 := \<lparr>edgeHead = [], data = Some ''C''\<rparr>),
          gsize = 3, T = tableZero\<rparr>"

definition Gbig :: Graph where
  "Gbig = \<lparr>vertices = (\<lambda>i. \<lparr>edgeHead = [], data = None\<rparr>)
           (1 := \<lparr>edgeHead = [\<lparr>adjVertex = 2, weight = 2147483646\<rparr>], data = Some ''A''\<rparr>,
            2 := \<lparr>edgeHead = [\<lparr>adjVertex = 3, weight = 5\<rparr>], data = Some ''B''\<rparr>,
            3 := \<lparr>edgeHead = [], data = Some ''C''\<rparr>),
          gsize = 3, T = tableZero\<rparr>"

text \<open>
  The table at the start of the loop of \<^verbatim>\<open>findShortestPathHelper(s)\<close>, when the run is
  the first one after the initialisation of the table.
\<close>

definition rowStart :: "int \<Rightarrow> table" where
  "rowStart s = (initTable tableZero)(s := (initTable tableZero s)(s :=
                   (initTable tableZero s s)\<lparr>dist := 0, path := s\<rparr>))"

text \<open>Two calls of \<^verbatim>\<open>insertEdge\<close> with the same endpoints, and the list a result holds.\<close>

definition insertEdgeTwice :: "Graph \<Rightarrow> int \<Rightarrow> int \<Rightarrow> int \<Rightarrow> int \<Rightarrow> (bool \<times> Graph) option" where
  "insertEdgeTwice g src dst w1 w2 =
     (case insertEdge g src dst w1 of
        None \<Rightarrow> None
      | Some (ok, g1) \<Rightarrow> insertEdge g1 src dst w2)"

definition adjacencyOf :: "(bool \<times> Graph) option \<Rightarrow> int \<Rightarrow> EdgeNode list option" where
  "adjacencyOf r v = (case r of None \<Rightarrow> None | Some (ok, g) \<Rightarrow> Some (edgeHead (vertices g v)))"

text \<open>
  What \<^verbatim>\<open>clearGraph\<close> leaves: the slots \<open>1..size\<close> hold no list and no label, every other
  member is as before.
\<close>

definition cleared :: "Graph \<Rightarrow> Graph" where
  "cleared g = g\<lparr>vertices := (\<lambda>j. if 1 \<le> j \<and> j \<le> gsize g
                                  then \<lparr>edgeHead = [], data = None\<rparr> else vertices g j)\<rparr>"

text \<open>
  A copy of \<open>helperLoop\<close> that also returns, for every executed iteration of the loop body
  in order, the table the iteration started from and the vertex it selected.
\<close>

function helperLoopTraced ::
  "Graph \<Rightarrow> int \<Rightarrow> int \<Rightarrow> table \<Rightarrow> (table \<times> (table \<times> int) list) option" where
  "helperLoopTraced g source i tb =
     (if i < gsize g then
        (case lowestWeightVertex g tb source of
           None \<Rightarrow> None
         | Some vertex \<Rightarrow>
             if vertex > 0 then
               (if \<not> inBounds vertex then None
                else (case relaxEdges
                             (tb(source := (tb source)(vertex :=
                                   (tb source vertex)\<lparr>visited := True\<rparr>)))
                             source vertex (edgeHead (vertices g vertex)) of
                        None \<Rightarrow> None
                      | Some tb' \<Rightarrow>
                          (case helperLoopTraced g source (i + 1) tb' of
                             None \<Rightarrow> None
                           | Some (final, trace) \<Rightarrow> Some (final, (tb, vertex) # trace))))
             else Some (tb, []))
      else Some (tb, []))"
  by pat_completeness auto
termination
  by (relation "measure (\<lambda>(g, source, i, tb). nat (gsize g - i))") auto

declare helperLoopTraced.simps [simp del]

text \<open>
  \<open>v\<close> is, in row \<open>s\<close> of the table, the unvisited vertex of \<open>1..size\<close> with the smallest
  distance below \<^verbatim>\<open>INT_MAX\<close>, and the lowest-numbered one among those of that distance.
\<close>

definition lowestUnvisited :: "Graph \<Rightarrow> table \<Rightarrow> int \<Rightarrow> int \<Rightarrow> bool" where
  "lowestUnvisited g tb s v \<longleftrightarrow>
     1 \<le> v \<and> v \<le> gsize g \<and> \<not> visited (tb s v) \<and> dist (tb s v) < INT_MAX
     \<and> (\<forall>j. 1 \<le> j \<and> j \<le> gsize g \<and> \<not> visited (tb s j) \<longrightarrow> dist (tb s v) \<le> dist (tb s j))
     \<and> (\<forall>j. 1 \<le> j \<and> j < v \<and> \<not> visited (tb s j) \<longrightarrow> dist (tb s v) < dist (tb s j))"

text \<open>No unvisited vertex of \<open>1..size\<close> has a distance below \<^verbatim>\<open>INT_MAX\<close> in row \<open>s\<close>.\<close>

definition noneUnvisited :: "Graph \<Rightarrow> table \<Rightarrow> int \<Rightarrow> bool" where
  "noneUnvisited g tb s \<longleftrightarrow>
     (\<forall>j. 1 \<le> j \<and> j \<le> gsize g \<longrightarrow> visited (tb s j) \<or> INT_MAX \<le> dist (tb s j))"

text \<open>
  \<open>boundedGraph g W\<close>: the graph has at most 100 vertices, every edge stored in the slots
  \<open>1..size\<close> leads to a vertex number of the table and has a weight between 0 and \<open>W\<close>, and
  \<open>size - 1\<close> such weights add up to at most \<^verbatim>\<open>INT_MAX\<close>.
\<close>

definition boundedGraph :: "Graph \<Rightarrow> int \<Rightarrow> bool" where
  "boundedGraph g W \<longleftrightarrow>
     0 \<le> W \<and> gsize g < MAX_VERTICES \<and> (gsize g - 1) * W \<le> INT_MAX
     \<and> (\<forall>v. 1 \<le> v \<and> v \<le> gsize g \<longrightarrow>
           (\<forall>e \<in> set (edgeHead (vertices g v)).
              inBounds (adjVertex e) \<and> 0 \<le> weight e \<and> weight e \<le> W))"

text \<open>Every distance of a row is the initial \<^verbatim>\<open>INT_MAX\<close> or lies between 0 and \<open>B\<close>.\<close>

definition rowBound :: "(int \<Rightarrow> Table) \<Rightarrow> int \<Rightarrow> bool" where
  "rowBound row B \<longleftrightarrow>
     (\<forall>c. inBounds c \<longrightarrow> dist (row c) = INT_MAX \<or> (0 \<le> dist (row c) \<and> dist (row c) \<le> B))"

text \<open>
  \<open>edgeChain g p ws\<close>: the vertex sequence \<open>p\<close> is a chain of edges stored in \<open>g\<close>, the
  \<open>k\<close>-th edge leading from \<open>p ! k\<close> to \<open>p ! (k + 1)\<close> with weight \<open>ws ! k\<close>.
\<close>

fun edgeChain :: "Graph \<Rightarrow> int list \<Rightarrow> int list \<Rightarrow> bool" where
  "edgeChain g [v] [] = True"
| "edgeChain g (u # v # p) (w # ws) =
     (\<lparr>adjVertex = v, weight = w\<rparr> \<in> set (edgeHead (vertices g u)) \<and> edgeChain g (v # p) ws)"
| "edgeChain g p ws = False"

definition reachable :: "Graph \<Rightarrow> int \<Rightarrow> int \<Rightarrow> bool" where
  "reachable g s d \<longleftrightarrow> (\<exists>p ws. edgeChain g p ws \<and> hd p = s \<and> last p = d)"

definition nonNegWeights :: "Graph \<Rightarrow> bool" where
  "nonNegWeights g \<longleftrightarrow> (\<forall>v. \<forall>e \<in> set (edgeHead (vertices g v)). 0 \<le> weight e)"

text \<open>
  The invariant of one run of \<^verbatim>\<open>findShortestPathHelper\<close> on row \<open>row\<close> of source \<open>s\<close>;
  \<open>vs\<close> lists the vertices marked visited so far, in the order of their selection.
\<close>

definition rowInv :: "Graph \<Rightarrow> int \<Rightarrow> (int \<Rightarrow> Table) \<Rightarrow> int list \<Rightarrow> bool" where
  "rowInv g s row vs \<longleftrightarrow>
     distinct vs
     \<and> (\<forall>c. inBounds c \<longrightarrow> (visited (row c) \<longleftrightarrow> c \<in> set vs))
     \<and> (\<forall>v \<in> set vs. 1 \<le> v \<and> v \<le> gsize g \<and> inBounds v \<and> dist (row v) < INT_MAX)
     \<and> (vs \<noteq> [] \<longrightarrow> hd vs = s)
     \<and> dist (row s) = 0 \<and> path (row s) = s
     \<and> (\<forall>c. inBounds c \<and> c \<noteq> s \<longrightarrow>
           (path (row c) = 0 \<and> dist (row c) = INT_MAX)
         \<or> (path (row c) \<in> set (takeWhile (\<lambda>x. x \<noteq> c) vs) \<and> dist (row c) < INT_MAX
            \<and> (\<exists>e \<in> set (edgeHead (vertices g (path (row c)))).
                  adjVertex e = c \<and> dist (row c) = dist (row (path (row c))) + weight e)))"

text \<open>
  A store with two graph objects: at address 0 the three-vertex graph of the scenario, at
  address 1 a graph as the default constructor leaves it.
\<close>

definition F3 :: GraphObj where
  "F3 = \<lparr>verticesPtr = (\<lambda>i. \<lparr>edgeHeadPtr = None, dataPtr = None\<rparr>)
            (1 := \<lparr>edgeHeadPtr = Some 10, dataPtr = Some 20\<rparr>,
             2 := \<lparr>edgeHeadPtr = Some 12, dataPtr = Some 21\<rparr>,
             3 := \<lparr>edgeHeadPtr = None, dataPtr = Some 22\<rparr>),
          sizeObj = 3, tableObj = tableZero\<rparr>"

definition E0 :: GraphObj where
  "E0 = \<lparr>verticesPtr = (\<lambda>i. \<lparr>edgeHeadPtr = None, dataPtr = None\<rparr>),
          sizeObj = 0, tableObj = tableZero\<rparr>"

definition S3 :: store where
  "S3 = \<lparr>edgeNodes = Map.empty(10 \<mapsto> \<lparr>adjVertex = 2, weight = 5, nextEdge = Some 11\<rparr>,
                                 11 \<mapsto> \<lparr>adjVertex = 3, weight = 10, nextEdge = None\<rparr>,
                                 12 \<mapsto> \<lparr>adjVertex = 3, weight = 2, nextEdge = None\<rparr>),
          vertexObjs = Map.empty(20 \<mapsto> ''A'', 21 \<mapsto> ''B'', 22 \<mapsto> ''C''),
          graphObjs = Map.empty(0 \<mapsto> F3, 1 \<mapsto> E0),
          nextAddr = 30\<rparr>"

definition fp3 :: "int \<Rightarrow> addr list" where
  "fp3 = (\<lambda>i. [])(1 := [10, 11], 2 := [12])"

definition es3 :: "int \<Rightarrow> EdgeNode list" where
  "es3 = (\<lambda>i. [])(1 := [\<lparr>adjVertex = 2, weight = 5\<rparr>, \<lparr>adjVertex = 3, weight = 10\<rparr>],
                   2 := [\<lparr>adjVertex = 3, weight = 2\<rparr>])"

definition dp3 :: "int \<Rightarrow> addr" where
  "dp3 = (\<lambda>i. 0)(1 := 20, 2 := 21, 3 := 22)"

definition ls3 :: "int \<Rightarrow> string" where
  "ls3 = (\<lambda>i. [])(1 := ''A'', 2 := ''B'', 3 := ''C'')"

section \<open>Edge insertion and removal\<close>


lemma removeWalk_first:
  "d \<notin> adjVertex ` set pre \<Longrightarrow> adjVertex e = d \<Longrightarrow>
   removeWalk d prev (pre @ e # post) = Some (prev @ pre @ post)"
  by (induction pre arbitrary: prev) auto


lemma removeEdge_at_first:
  assumes "inBounds src" and "edgeHead (vertices g src) = pre @ e # post"
    and "adjVertex e = dst" and "dst \<notin> adjVertex ` set pre"
  shows "removeEdge g src dst = Some (True, setEdgeHead g src (pre @ post))"
proof (cases pre)
  case Nil
  with assms show ?thesis by (simp add: removeEdge_def)
next
  case (Cons h pre')
  with assms have "adjVertex h \<noteq> dst" by auto
  moreover have "removeWalk dst [] (pre @ e # post) = Some ([] @ pre @ post)"
    using assms by (intro removeWalk_first) auto
  ultimately show ?thesis using assms Cons by (simp add: removeEdge_def)
qed


text \<open>
  C2, evaluated where it fails: on a slot with no list, a first \<^verbatim>\<open>insertEdge(1, 2, 5)\<close>
  stores one node; the second \<^verbatim>\<open>insertEdge(1, 2, 7)\<close> skips the loop, because the only
  node has no successor, and links a second node for the same destination behind it.
\<close>

theorem insertEdge_twice_appends_duplicate:
  "adjacencyOf (insertEdgeTwice G0 1 2 5 7) 1
     = Some [\<lparr>adjVertex = 2, weight = 5\<rparr>, \<lparr>adjVertex = 2, weight = 7\<rparr>]"
  by (simp add: adjacencyOf_def insertEdgeTwice_def insertEdge_def setEdgeHead_def G0_def
      emptyGraph_def inBounds_def MAX_VERTICES_def)

text \<open>
  C7: \<^verbatim>\<open>insertEdge\<close> with a negative weight returns \<^verbatim>\<open>false\<close> and the graph is the one
  it was called on, whatever the endpoints; with a weight \<open>\<ge> 0\<close> (zero and self-loops
  included) and a source inside the \<^verbatim>\<open>vertices\<close> array it returns \<^verbatim>\<open>true\<close>.
\<close>

theorem insertEdge_weight_check:
  "(w < 0 \<longrightarrow> insertEdge g src dst w = Some (False, g)) \<and>
   (0 \<le> w \<and> inBounds src \<longrightarrow> (\<exists>g'. insertEdge g src dst w = Some (True, g')))"
  by (auto simp: insertEdge_def split: list.splits)

theorem insertEdge_weight_check_witness:
  "(- 1 :: int) < 0 \<and> insertEdge G3 2 2 (- 1) = Some (False, G3) \<and>
   (0 :: int) \<le> 0 \<and> inBounds 2 \<and> (\<exists>g'. insertEdge G3 2 2 0 = Some (True, g'))"
  using insertEdge_weight_check [of "- 1" G3 2 2] insertEdge_weight_check [of 0 G3 2 2]
  by (simp add: inBounds_def MAX_VERTICES_def)



text \<open>
  C10: when the list of an in-range source is \<open>pre @ e # post\<close>, \<open>e\<close> being its first node for
  the destination, one call of \<^verbatim>\<open>removeEdge\<close> leaves \<open>pre @ post\<close>: one node fewer, and every
  node behind \<open>e\<close>, those for the same destination included, is still in the list.
\<close>

theorem removeEdge_first_only:
  assumes "inBounds src" and "edgeHead (vertices g src) = pre @ e # post"
    and "adjVertex e = dst" and "dst \<notin> adjVertex ` set pre"
  shows "\<exists>g'. removeEdge g src dst = Some (True, g')
           \<and> edgeHead (vertices g' src) = pre @ post
           \<and> length (edgeHead (vertices g' src)) + 1 = length (edgeHead (vertices g src))
           \<and> filter (\<lambda>x. adjVertex x = dst) (edgeHead (vertices g' src))
               = filter (\<lambda>x. adjVertex x = dst) post"
proof -
  have "removeEdge g src dst = Some (True, setEdgeHead g src (pre @ post))"
    using assms by (rule removeEdge_at_first)
  moreover have "edgeHead (vertices (setEdgeHead g src (pre @ post)) src) = pre @ post"
    by (simp add: setEdgeHead_def)
  moreover have "filter (\<lambda>x. adjVertex x = dst) pre = []"
    using assms(4) by (auto simp: filter_empty_conv)
  ultimately show ?thesis using assms(2) by simp
qed

theorem removeEdge_first_only_witness:
  "\<exists>g'. removeEdge (setEdgeHead G0 1 [\<lparr>adjVertex = 2, weight = 5\<rparr>, \<lparr>adjVertex = 2, weight = 7\<rparr>]) 1 2
           = Some (True, g')
       \<and> edgeHead (vertices g' 1) = [\<lparr>adjVertex = 2, weight = 7\<rparr>]"
proof -
  let ?g = "setEdgeHead G0 1 [\<lparr>adjVertex = 2, weight = 5\<rparr>, \<lparr>adjVertex = 2, weight = 7\<rparr>]"
  have b: "inBounds 1" by (simp add: inBounds_def MAX_VERTICES_def)
  have l: "edgeHead (vertices ?g 1)
             = [] @ \<lparr>adjVertex = 2, weight = 5\<rparr> # [\<lparr>adjVertex = 2, weight = 7\<rparr>]"
    by (simp add: setEdgeHead_def)
  have a: "adjVertex \<lparr>adjVertex = 2, weight = 5\<rparr> = 2" by simp
  have n: "(2 :: int) \<notin> adjVertex ` set []" by simp
  from removeEdge_first_only [OF b l a n] obtain g' where
    "removeEdge ?g 1 2 = Some (True, g')"
    "edgeHead (vertices g' 1) = [] @ [\<lparr>adjVertex = 2, weight = 7\<rparr>]"
    by (elim exE conjE)
  then show ?thesis by simp
qed

subsection \<open>The mutators and the store-level lists\<close>

text \<open>
  The lists of the store-level mutators are those of the list-level \<open>insertEdge\<close> and
  \<open>removeEdge\<close>.
\<close>

lemma insertEdge_insertedList:
  assumes "0 \<le> w" and "inBounds s"
  shows "insertEdge g s d w
           = Some (True, setEdgeHead g s (insertedList d w (edgeHead (vertices g s))))"
  using assms by (simp add: insertEdge_def insertedList_def split: list.splits)

lemma setEdgeHead_same: "setEdgeHead g s (edgeHead (vertices g s)) = g"
  by (simp add: setEdgeHead_def)

text \<open>Every graph the mutators build has non-negative weights only.\<close>

lemma nonNegWeights_emptyGraph: "nonNegWeights (emptyGraph tb)"
  by (simp add: nonNegWeights_def emptyGraph_def)

lemma insertWalk_weights:
  "0 \<le> w \<Longrightarrow> 0 \<le> weight c \<Longrightarrow> \<forall>e \<in> set rest. 0 \<le> weight e \<Longrightarrow>
   \<forall>e \<in> set (insertWalk d w c rest). 0 \<le> weight e"
  by (induction rest arbitrary: c) auto

lemma nonNegWeights_setEdgeHead:
  "nonNegWeights g \<Longrightarrow> \<forall>e \<in> set es. 0 \<le> weight e \<Longrightarrow> nonNegWeights (setEdgeHead g s es)"
  by (simp add: nonNegWeights_def setEdgeHead_def)

lemma insertEdge_nonNegWeights:
  assumes "nonNegWeights g" and "insertEdge g s d w = Some (ok, g')"
  shows "nonNegWeights g'"
proof (cases "w < 0")
  case True
  with assms show ?thesis by (simp add: insertEdge_def)
next
  case False
  with assms(2) have b: "inBounds s" by (auto simp: insertEdge_def split: if_splits)
  from assms(1) have old: "\<forall>e \<in> set (edgeHead (vertices g s)). 0 \<le> weight e"
    by (simp add: nonNegWeights_def)
  have "\<forall>e \<in> set (insertedList d w (edgeHead (vertices g s))). 0 \<le> weight e"
  proof (cases "edgeHead (vertices g s)")
    case Nil
    with False show ?thesis by (simp add: insertedList_def)
  next
    case (Cons c rest)
    with old False insertWalk_weights [of w c rest d] show ?thesis
      by (simp add: insertedList_def)
  qed
  with assms(1) have "nonNegWeights (setEdgeHead g s (insertedList d w (edgeHead (vertices g s))))"
    by (rule nonNegWeights_setEdgeHead)
  with assms(2) False b insertEdge_insertedList [of w s g d] show ?thesis by simp
qed

lemma removeWalk_subset:
  "removeWalk d prev es = Some r \<Longrightarrow> set r \<subseteq> set prev \<union> set es"
proof (induction es arbitrary: prev)
  case Nil
  then show ?case by simp
next
  case (Cons a es)
  show ?case
  proof (cases "adjVertex a = d")
    case True
    with Cons.prems show ?thesis by auto
  next
    case False
    with Cons.prems have "removeWalk d (prev @ [a]) es = Some r" by simp
    from Cons.IH [OF this] show ?thesis by auto
  qed
qed

lemma removeEdge_removedList:
  assumes "inBounds s"
  shows "\<exists>ok. removeEdge g s d
           = Some (ok, setEdgeHead g s (removedList d (edgeHead (vertices g s))))"
proof (cases "edgeHead (vertices g s)")
  case Nil
  hence "removeEdge g s d = Some (False, g)"
    and "setEdgeHead g s (removedList d (edgeHead (vertices g s))) = g"
    using assms setEdgeHead_same [of g s] by (simp_all add: removeEdge_def removedList_def)
  thus ?thesis by (intro exI [of _ False]) simp
next
  case (Cons e es)
  show ?thesis
  proof (cases "adjVertex e = d")
    case True
    with Cons assms
    have "removeEdge g s d
            = Some (True, setEdgeHead g s (removedList d (edgeHead (vertices g s))))"
      by (simp add: removeEdge_def removedList_def)
    thus ?thesis by (rule exI)
  next
    case False
    show ?thesis
    proof (cases "removeWalk d [] (e # es)")
      case None
      with False Cons assms
      have "removeEdge g s d = Some (False, g)"
        and "setEdgeHead g s (removedList d (edgeHead (vertices g s))) = g"
        using setEdgeHead_same [of g s] by (simp_all add: removeEdge_def removedList_def)
      thus ?thesis by (intro exI [of _ False]) simp
    next
      case (Some r)
      with False Cons assms
      have "removeEdge g s d
              = Some (True, setEdgeHead g s (removedList d (edgeHead (vertices g s))))"
        by (simp add: removeEdge_def removedList_def)
      thus ?thesis by (rule exI)
    qed
  qed
qed

lemma removedList_subset: "set (removedList d es) \<subseteq> set es"
proof (cases es)
  case Nil
  then show ?thesis by (simp add: removedList_def)
next
  case (Cons e rest)
  show ?thesis
  proof (cases "removeWalk d [] (e # rest)")
    case None
    with Cons show ?thesis by (auto simp: removedList_def)
  next
    case (Some r)
    from removeWalk_subset [OF Some] have "set r \<subseteq> set (e # rest)" by simp
    with Some Cons show ?thesis by (auto simp: removedList_def)
  qed
qed

lemma removeEdge_nonNegWeights:
  assumes "nonNegWeights g" and "removeEdge g s d = Some (ok, g')"
  shows "nonNegWeights g'"
proof -
  from assms(2) have b: "inBounds s" by (auto simp: removeEdge_def split: if_splits)
  from assms(1) have old: "\<forall>e \<in> set (edgeHead (vertices g s)). 0 \<le> weight e"
    by (simp add: nonNegWeights_def)
  have "set (removedList d (edgeHead (vertices g s))) \<subseteq> set (edgeHead (vertices g s))"
    by (rule removedList_subset)
  with old have "\<forall>e \<in> set (removedList d (edgeHead (vertices g s))). 0 \<le> weight e" by blast
  with assms(1)
  have "nonNegWeights (setEdgeHead g s (removedList d (edgeHead (vertices g s))))"
    by (rule nonNegWeights_setEdgeHead)
  with assms(2) removeEdge_removedList [OF b, of g d] show ?thesis by auto
qed

section \<open>Clearing\<close>

lemma clearLoop_result:
  "1 \<le> i \<Longrightarrow> gsize g < MAX_VERTICES \<Longrightarrow>
   clearLoop g i = Some (g\<lparr>vertices := (\<lambda>j. if i \<le> j \<and> j \<le> gsize g
                                           then \<lparr>edgeHead = [], data = None\<rparr> else vertices g j)\<rparr>)"
proof (induction g i rule: clearLoop.induct)
  case (1 g i)
  show ?case
  proof (cases "i \<le> gsize g")
    case True
    with 1 have b: "inBounds i" by (simp add: inBounds_def)
    let ?g = "g\<lparr>vertices := (vertices g)(i := \<lparr>edgeHead = [], data = None\<rparr>)\<rparr>"
    have "clearLoop ?g (i + 1) = Some (?g\<lparr>vertices := (\<lambda>j. if i + 1 \<le> j \<and> j \<le> gsize ?g
                    then \<lparr>edgeHead = [], data = None\<rparr> else vertices ?g j)\<rparr>)"
      using 1 True b by (intro "1.IH") auto
    moreover have "(\<lambda>j. if i + 1 \<le> j \<and> j \<le> gsize ?g
                    then \<lparr>edgeHead = [], data = None\<rparr> else vertices ?g j)
        = (\<lambda>j. if i \<le> j \<and> j \<le> gsize g then \<lparr>edgeHead = [], data = None\<rparr> else vertices g j)"
      using True by (auto simp: fun_eq_iff)
    ultimately show ?thesis using True b by (subst clearLoop.simps) simp
  next
    case False
    then have "(\<lambda>j. if i \<le> j \<and> j \<le> gsize g then \<lparr>edgeHead = [], data = None\<rparr>
                    else vertices g j) = vertices g"
      by (auto simp: fun_eq_iff)
    with False show ?thesis by (subst clearLoop.simps) simp
  qed
qed

lemma clearGraph_cleared:
  assumes "gsize g < MAX_VERTICES"
  shows "clearGraph g = Some (cleared g)"
proof (cases "gsize g > 0")
  case True
  with assms show ?thesis by (simp add: clearGraph_def cleared_def clearLoop_result)
next
  case False
  then have "(\<lambda>j. if 1 \<le> j \<and> j \<le> gsize g then \<lparr>edgeHead = [], data = None\<rparr>
                  else vertices g j) = vertices g"
    by (auto simp: fun_eq_iff)
  with False show ?thesis by (simp add: clearGraph_def cleared_def)
qed

lemma cleared_idem: "cleared (cleared g) = cleared g"
  by (simp add: cleared_def fun_eq_iff)

text \<open>
  C6 as stated fails: \<^verbatim>\<open>clearGraph\<close> does not assign \<^verbatim>\<open>size\<close>.  On the three-vertex
  graph the vertex count is still 3 afterwards.
\<close>

theorem clearGraph_size_counterexample:
  "map_option gsize (clearGraph G3) = Some 3"
  by (simp add: clearGraph_cleared cleared_def G3_def MAX_VERTICES_def)

text \<open>
  C6, amended: for a vertex count within the array, \<^verbatim>\<open>clearGraph\<close> empties the list and
  the label of every slot \<open>1..size\<close> and leaves the vertex count, the table and every other
  slot as they were; a second call changes nothing, and on a graph with vertex count 0 the
  first call changes nothing either.
\<close>

theorem clearGraph_result:
  assumes "gsize g < MAX_VERTICES"
  shows "clearGraph g = Some (cleared g)
       \<and> (\<forall>j. 1 \<le> j \<and> j \<le> gsize g \<longrightarrow>
              vertices (cleared g) j = \<lparr>edgeHead = [], data = None\<rparr>)
       \<and> (\<forall>j. \<not> (1 \<le> j \<and> j \<le> gsize g) \<longrightarrow> vertices (cleared g) j = vertices g j)
       \<and> gsize (cleared g) = gsize g \<and> T (cleared g) = T g
       \<and> clearGraph (cleared g) = Some (cleared g)
       \<and> (gsize g \<le> 0 \<longrightarrow> clearGraph g = Some g)"
proof -
  have "clearGraph g = Some (cleared g)" using assms by (rule clearGraph_cleared)
  moreover have "clearGraph (cleared g) = Some (cleared g)"
    using assms clearGraph_cleared [of "cleared g"] by (simp add: cleared_idem) (simp add: cleared_def)
  moreover have "gsize g \<le> 0 \<longrightarrow> clearGraph g = Some g" by (simp add: clearGraph_def)
  ultimately show ?thesis by (simp add: cleared_def)
qed

theorem clearGraph_result_witness:
  "gsize G3 < MAX_VERTICES \<and> clearGraph G3 = Some (cleared G3)
   \<and> vertices (cleared G3) 1 = \<lparr>edgeHead = [], data = None\<rparr>
   \<and> gsize (cleared G3) = 3
   \<and> gsize G0 \<le> 0 \<and> clearGraph G0 = Some G0"
proof -
  have a: "gsize G3 < MAX_VERTICES" by (simp add: G3_def MAX_VERTICES_def)
  have b: "gsize G0 < MAX_VERTICES" by (simp add: G0_def emptyGraph_def MAX_VERTICES_def)
  have c: "gsize G0 \<le> 0" by (simp add: G0_def emptyGraph_def)
  have d: "gsize G3 = 3" by (simp add: G3_def)
  from clearGraph_result [OF a] clearGraph_result [OF b] a c d show ?thesis by auto
qed

section \<open>Selection of the next vertex\<close>

lemma lowestWeightLoop_result:
  "lowestWeightLoop g tb s i lw rv = Some v \<Longrightarrow>
   (v = rv \<and> (\<forall>j. i \<le> j \<and> j \<le> gsize g \<longrightarrow> visited (tb s j) \<or> lw \<le> dist (tb s j)))
   \<or> (i \<le> v \<and> v \<le> gsize g \<and> inBounds v \<and> \<not> visited (tb s v) \<and> dist (tb s v) < lw
      \<and> (\<forall>j. i \<le> j \<and> j \<le> gsize g \<and> \<not> visited (tb s j) \<longrightarrow> dist (tb s v) \<le> dist (tb s j))
      \<and> (\<forall>j. i \<le> j \<and> j < v \<and> \<not> visited (tb s j) \<longrightarrow> dist (tb s v) < dist (tb s j)))"
proof (induction g tb s i lw rv rule: lowestWeightLoop.induct)
  case (1 g tb s i lw rv)
  show ?case
  proof (cases "i \<le> gsize g")
    case False
    with "1.prems" have "v = rv" by (simp add: lowestWeightLoop.simps)
    with False show ?thesis by auto
  next
    case True
    with "1.prems" have b: "inBounds s" "inBounds i"
      by (auto simp: lowestWeightLoop.simps [of g tb s i] split: if_splits)
    show ?thesis
    proof (cases "visited (tb s i) = False \<and> dist (tb s i) < lw")
      case sel: True
      with True b "1.prems" have r: "lowestWeightLoop g tb s (i + 1) (dist (tb s i)) i = Some v"
        by (simp add: lowestWeightLoop.simps [of g tb s i])
      from "1.IH"(1) [OF True _ sel r] b
      consider (a) "v = i" "\<forall>j. i + 1 \<le> j \<and> j \<le> gsize g \<longrightarrow> visited (tb s j) \<or> dist (tb s i) \<le> dist (tb s j)"
        | (b) "i + 1 \<le> v" "v \<le> gsize g" "inBounds v" "\<not> visited (tb s v)" "dist (tb s v) < dist (tb s i)"
            "\<forall>j. i + 1 \<le> j \<and> j \<le> gsize g \<and> \<not> visited (tb s j) \<longrightarrow> dist (tb s v) \<le> dist (tb s j)"
            "\<forall>j. i + 1 \<le> j \<and> j < v \<and> \<not> visited (tb s j) \<longrightarrow> dist (tb s v) < dist (tb s j)"
        by blast
      then show ?thesis
      proof cases
        case a
        have "\<forall>j. i \<le> j \<and> j \<le> gsize g \<and> \<not> visited (tb s j) \<longrightarrow> dist (tb s v) \<le> dist (tb s j)"
        proof (intro allI impI)
          fix j assume j: "i \<le> j \<and> j \<le> gsize g \<and> \<not> visited (tb s j)"
          show "dist (tb s v) \<le> dist (tb s j)"
          proof (cases "j = i")
            case True then show ?thesis using a by simp
          next
            case False
            with j have "i + 1 \<le> j" by simp
            with a j show ?thesis by auto
          qed
        qed
        with a True b sel show ?thesis by auto
      next
        case b
        have m: "\<forall>j. i \<le> j \<and> j \<le> gsize g \<and> \<not> visited (tb s j) \<longrightarrow> dist (tb s v) \<le> dist (tb s j)"
        proof (intro allI impI)
          fix j assume j: "i \<le> j \<and> j \<le> gsize g \<and> \<not> visited (tb s j)"
          show "dist (tb s v) \<le> dist (tb s j)"
          proof (cases "j = i")
            case True then show ?thesis using b by simp
          next
            case False
            with j have "i + 1 \<le> j" by simp
            with b j show ?thesis by auto
          qed
        qed
        have t: "\<forall>j. i \<le> j \<and> j < v \<and> \<not> visited (tb s j) \<longrightarrow> dist (tb s v) < dist (tb s j)"
        proof (intro allI impI)
          fix j assume j: "i \<le> j \<and> j < v \<and> \<not> visited (tb s j)"
          show "dist (tb s v) < dist (tb s j)"
          proof (cases "j = i")
            case True then show ?thesis using b by simp
          next
            case False
            with j have "i + 1 \<le> j" by simp
            with b j show ?thesis by auto
          qed
        qed
        from b sel have "i \<le> v" "dist (tb s v) < lw" by auto
        with b m t show ?thesis by blast
      qed
    next
      case nsel: False
      with True b "1.prems" have r: "lowestWeightLoop g tb s (i + 1) lw rv = Some v"
        by (auto simp: lowestWeightLoop.simps [of g tb s i])
      from "1.IH"(2) [OF True _ nsel r] b
      consider (a) "v = rv" "\<forall>j. i + 1 \<le> j \<and> j \<le> gsize g \<longrightarrow> visited (tb s j) \<or> lw \<le> dist (tb s j)"
        | (b) "i + 1 \<le> v" "v \<le> gsize g" "inBounds v" "\<not> visited (tb s v)" "dist (tb s v) < lw"
            "\<forall>j. i + 1 \<le> j \<and> j \<le> gsize g \<and> \<not> visited (tb s j) \<longrightarrow> dist (tb s v) \<le> dist (tb s j)"
            "\<forall>j. i + 1 \<le> j \<and> j < v \<and> \<not> visited (tb s j) \<longrightarrow> dist (tb s v) < dist (tb s j)"
        by blast
      then show ?thesis
      proof cases
        case a
        have "\<forall>j. i \<le> j \<and> j \<le> gsize g \<longrightarrow> visited (tb s j) \<or> lw \<le> dist (tb s j)"
        proof (intro allI impI)
          fix j assume j: "i \<le> j \<and> j \<le> gsize g"
          show "visited (tb s j) \<or> lw \<le> dist (tb s j)"
          proof (cases "j = i")
            case True then show ?thesis using nsel by auto
          next
            case False
            with j have "i + 1 \<le> j" by simp
            with a j show ?thesis by auto
          qed
        qed
        with a show ?thesis by blast
      next
        case b
        have m: "\<forall>j. i \<le> j \<and> j \<le> gsize g \<and> \<not> visited (tb s j) \<longrightarrow> dist (tb s v) \<le> dist (tb s j)"
        proof (intro allI impI)
          fix j assume j: "i \<le> j \<and> j \<le> gsize g \<and> \<not> visited (tb s j)"
          show "dist (tb s v) \<le> dist (tb s j)"
          proof (cases "j = i")
            case True then show ?thesis using b nsel j by auto
          next
            case False
            with j have "i + 1 \<le> j" by simp
            with b j show ?thesis by auto
          qed
        qed
        have t: "\<forall>j. i \<le> j \<and> j < v \<and> \<not> visited (tb s j) \<longrightarrow> dist (tb s v) < dist (tb s j)"
        proof (intro allI impI)
          fix j assume j: "i \<le> j \<and> j < v \<and> \<not> visited (tb s j)"
          show "dist (tb s v) < dist (tb s j)"
          proof (cases "j = i")
            case True then show ?thesis using b nsel j by auto
          next
            case False
            with j have "i + 1 \<le> j" by simp
            with b j show ?thesis by auto
          qed
        qed
        from b have "i \<le> v" by auto
        with b m t show ?thesis by blast
      qed
    qed
  qed
qed

lemma lowestWeightLoop_defined:
  "inBounds s \<Longrightarrow> gsize g < MAX_VERTICES \<Longrightarrow> 1 \<le> i \<Longrightarrow>
   \<exists>v. lowestWeightLoop g tb s i lw rv = Some v"
proof (induction g tb s i lw rv rule: lowestWeightLoop.induct)
  case (1 g tb s i lw rv)
  show ?case
  proof (cases "i \<le> gsize g")
    case False
    then show ?thesis by (simp add: lowestWeightLoop.simps [of g tb s i])
  next
    case True
    with 1 have b: "inBounds i" by (simp add: inBounds_def)
    show ?thesis
    proof (cases "visited (tb s i) = False \<and> dist (tb s i) < lw")
      case sel: True
      from "1.IH"(1) [OF True _ sel] b 1
      have "\<exists>v. lowestWeightLoop g tb s (i + 1) (dist (tb s i)) i = Some v" by simp
      with True b sel 1 show ?thesis by (simp add: lowestWeightLoop.simps [of g tb s i])
    next
      case nsel: False
      from "1.IH"(2) [OF True _ nsel] b 1
      have "\<exists>v. lowestWeightLoop g tb s (i + 1) lw rv = Some v" by simp
      with True b nsel 1 show ?thesis by (auto simp: lowestWeightLoop.simps [of g tb s i])
    qed
  qed
qed

lemma lowestWeightVertex_result:
  assumes "lowestWeightVertex g tb s = Some v"
  shows "(v = 0 \<and> noneUnvisited g tb s) \<or> (lowestUnvisited g tb s v \<and> inBounds v)"
  using lowestWeightLoop_result [of g tb s 1 INT_MAX 0 v] assms
  unfolding lowestWeightVertex_def noneUnvisited_def lowestUnvisited_def by blast

lemma lowestUnvisited_excl: "lowestUnvisited g tb s v \<Longrightarrow> \<not> noneUnvisited g tb s"
  unfolding noneUnvisited_def lowestUnvisited_def by force

section \<open>The invariant of one source run\<close>

lemma takeWhile_rank:
  "p \<in> set (takeWhile (\<lambda>x. x \<noteq> c) vs) \<Longrightarrow>
   length (takeWhile (\<lambda>x. x \<noteq> p) vs) < length (takeWhile (\<lambda>x. x \<noteq> c) vs)"
  by (induction vs) (auto split: if_splits)

lemma takeWhile_snoc_mono:
  "set (takeWhile P vs) \<subseteq> set (takeWhile P (vs @ [v]))"
  by (induction vs) auto

lemma takeWhile_length_le: "length (takeWhile P vs) \<le> length vs"
  by (induction vs) auto

lemma rowInv_source_visited:
  assumes "rowInv g s row vs" and "v \<in> set vs"
  shows "s \<in> set vs"
proof -
  from assms have "vs \<noteq> []" by auto
  with assms(1) have "hd vs = s" by (simp add: rowInv_def)
  with \<open>vs \<noteq> []\<close> show ?thesis using hd_in_set by blast
qed

lemma rowInv_dist_le:
  assumes "rowInv g s row vs" and "inBounds c" and "1 \<le> s"
  shows "dist (row c) \<le> INT_MAX"
proof (cases "c = s")
  case True
  with assms show ?thesis by (simp add: rowInv_def INT_MAX_def)
next
  case False
  with assms have "(path (row c) = 0 \<and> dist (row c) = INT_MAX) \<or> dist (row c) < INT_MAX"
    unfolding rowInv_def by blast
  then show ?thesis by auto
qed

lemma rowInv_update:
  assumes inv: "rowInv g s row vs" and v: "v \<in> set vs"
    and e: "e \<in> set (edgeHead (vertices g v))"
    and b: "inBounds (adjVertex e)" and u: "\<not> visited (row (adjVertex e))"
    and less: "dist (row (adjVertex e)) > dist (row v) + weight e"
    and s1: "1 \<le> s"
  shows "rowInv g s (row(adjVertex e := (row (adjVertex e))
                      \<lparr>dist := dist (row v) + weight e, path := v\<rparr>)) vs"
proof -
  let ?c = "adjVertex e"
  let ?row = "row(?c := (row ?c)\<lparr>dist := dist (row v) + weight e, path := v\<rparr>)"
  from inv b u have cn: "?c \<notin> set vs" by (auto simp: rowInv_def)
  from rowInv_source_visited [OF inv v] cn have cs: "?c \<noteq> s" by auto
  from cn v have cv: "?c \<noteq> v" by auto
  have old: "dist (row ?c) \<le> INT_MAX" using inv b s1 by (rule rowInv_dist_le)
  have vis: "\<And>c. visited (?row c) = visited (row c)" by simp
  have onvs: "\<And>x. x \<in> set vs \<Longrightarrow> ?row x = row x" using cn by auto
  have 1: "distinct vs" using inv by (simp add: rowInv_def)
  have 2: "\<forall>c. inBounds c \<longrightarrow> (visited (?row c) \<longleftrightarrow> c \<in> set vs)"
    using inv unfolding vis by (simp add: rowInv_def)
  have 3: "\<forall>x \<in> set vs. 1 \<le> x \<and> x \<le> gsize g \<and> inBounds x \<and> dist (?row x) < INT_MAX"
    using inv onvs by (simp add: rowInv_def)
  have 4: "vs \<noteq> [] \<longrightarrow> hd vs = s" using inv by (simp add: rowInv_def)
  have 5: "dist (?row s) = 0 \<and> path (?row s) = s" using inv cs by (simp add: rowInv_def)
  have 6: "\<forall>c. inBounds c \<and> c \<noteq> s \<longrightarrow>
           (path (?row c) = 0 \<and> dist (?row c) = INT_MAX)
         \<or> (path (?row c) \<in> set (takeWhile (\<lambda>x. x \<noteq> c) vs) \<and> dist (?row c) < INT_MAX
            \<and> (\<exists>e \<in> set (edgeHead (vertices g (path (?row c)))).
                  adjVertex e = c \<and> dist (?row c) = dist (?row (path (?row c))) + weight e))"
  proof (intro allI impI)
    fix c assume c: "inBounds c \<and> c \<noteq> s"
    show "(path (?row c) = 0 \<and> dist (?row c) = INT_MAX)
         \<or> (path (?row c) \<in> set (takeWhile (\<lambda>x. x \<noteq> c) vs) \<and> dist (?row c) < INT_MAX
            \<and> (\<exists>e \<in> set (edgeHead (vertices g (path (?row c)))).
                  adjVertex e = c \<and> dist (?row c) = dist (?row (path (?row c))) + weight e))"
    proof (cases "c = ?c")
      case True
      have tw: "takeWhile (\<lambda>x. x \<noteq> ?c) vs = vs" using cn by (auto simp: takeWhile_eq_all_conv)
      have p: "path (?row ?c) = v" "dist (?row ?c) = dist (row v) + weight e" by simp_all
      have "dist (?row ?c) < INT_MAX" using less old by simp
      moreover have "path (?row ?c) \<in> set (takeWhile (\<lambda>x. x \<noteq> ?c) vs)"
        unfolding tw using v by simp
      moreover have "\<exists>e' \<in> set (edgeHead (vertices g (path (?row ?c)))).
                  adjVertex e' = ?c \<and> dist (?row ?c) = dist (?row (path (?row ?c))) + weight e'"
        using e cv by (intro bexI [of _ e]) simp_all
      ultimately show ?thesis using True by blast
    next
      case False
      then have same: "?row c = row c" by simp
      from inv c consider
          (a) "path (row c) = 0 \<and> dist (row c) = INT_MAX"
        | (b) "path (row c) \<in> set (takeWhile (\<lambda>x. x \<noteq> c) vs)" "dist (row c) < INT_MAX"
              "\<exists>e \<in> set (edgeHead (vertices g (path (row c)))).
                  adjVertex e = c \<and> dist (row c) = dist (row (path (row c))) + weight e"
        unfolding rowInv_def by blast
      then show ?thesis
      proof cases
        case a then show ?thesis using same by simp
      next
        case b
        from b(1) have "path (row c) \<in> set vs" by (meson set_takeWhileD)
        then have "?row (path (row c)) = row (path (row c))" by (rule onvs)
        with b show ?thesis unfolding same by simp
      qed
    qed
  qed
  from 1 2 3 4 5 6 show ?thesis unfolding rowInv_def by blast
qed

lemma rowInv_select:
  assumes inv: "rowInv g s row vs"
    and v: "1 \<le> v" "v \<le> gsize g" "inBounds v" "\<not> visited (row v)" "dist (row v) < INT_MAX"
  shows "rowInv g s (row(v := (row v)\<lparr>visited := True\<rparr>)) (vs @ [v])"
proof -
  let ?row = "row(v := (row v)\<lparr>visited := True\<rparr>)"
  from inv v have vn: "v \<notin> set vs" by (auto simp: rowInv_def)
  have dp: "\<And>c. dist (?row c) = dist (row c)" "\<And>c. path (?row c) = path (row c)" by simp_all
  have 1: "distinct (vs @ [v])" using inv vn by (simp add: rowInv_def)
  have 2: "\<forall>c. inBounds c \<longrightarrow> (visited (?row c) \<longleftrightarrow> c \<in> set (vs @ [v]))"
    using inv by (auto simp: rowInv_def)
  have 3: "\<forall>x \<in> set (vs @ [v]). 1 \<le> x \<and> x \<le> gsize g \<and> inBounds x \<and> dist (?row x) < INT_MAX"
    using inv v unfolding dp by (auto simp: rowInv_def)
  have 4: "vs @ [v] \<noteq> [] \<longrightarrow> hd (vs @ [v]) = s"
  proof (cases "vs = []")
    case False
    with inv show ?thesis by (simp add: rowInv_def)
  next
    case True
    have "v = s"
    proof (rule ccontr)
      assume "v \<noteq> s"
      with inv v(3) True have "dist (row v) = INT_MAX" unfolding rowInv_def by auto
      with v(5) show False by simp
    qed
    with True show ?thesis by simp
  qed
  have 5: "dist (?row s) = 0 \<and> path (?row s) = s" using inv unfolding dp by (simp add: rowInv_def)
  have 6: "\<forall>c. inBounds c \<and> c \<noteq> s \<longrightarrow>
           (path (?row c) = 0 \<and> dist (?row c) = INT_MAX)
         \<or> (path (?row c) \<in> set (takeWhile (\<lambda>x. x \<noteq> c) (vs @ [v])) \<and> dist (?row c) < INT_MAX
            \<and> (\<exists>e \<in> set (edgeHead (vertices g (path (?row c)))).
                  adjVertex e = c \<and> dist (?row c) = dist (?row (path (?row c))) + weight e))"
    using inv takeWhile_snoc_mono [of _ vs v] unfolding dp rowInv_def by blast
  from 1 2 3 4 5 6 show ?thesis unfolding rowInv_def by blast
qed

lemma relaxEdges_frame:
  "relaxEdges tb s v es = Some tb' \<Longrightarrow> r \<noteq> s \<Longrightarrow> tb' r = tb r"
proof (induction es arbitrary: tb)
  case Nil
  then show ?case by simp
next
  case (Cons e es)
  let ?tb = "tb(s := (tb s)(adjVertex e :=
                      (tb s (adjVertex e))\<lparr>dist := dist (tb s v) + weight e, path := v\<rparr>))"
  from Cons.prems(1) consider
      (upd) "relaxEdges ?tb s v es = Some tb'"
    | (skip) "relaxEdges tb s v es = Some tb'"
    by (auto split: if_splits)
  then show ?case
  proof cases
    case upd
    from Cons.IH [OF upd Cons.prems(2)] Cons.prems(2) show ?thesis by simp
  next
    case skip
    from Cons.IH [OF skip Cons.prems(2)] show ?thesis .
  qed
qed

lemma relaxEdges_inv:
  "rowInv g s (tb s) vs \<Longrightarrow> v \<in> set vs \<Longrightarrow> 1 \<le> s \<Longrightarrow>
   set es \<subseteq> set (edgeHead (vertices g v)) \<Longrightarrow>
   relaxEdges tb s v es = Some tb' \<Longrightarrow> rowInv g s (tb' s) vs"
proof (induction es arbitrary: tb)
  case Nil
  then show ?case by simp
next
  case (Cons e es)
  let ?tb = "tb(s := (tb s)(adjVertex e :=
                      (tb s (adjVertex e))\<lparr>dist := dist (tb s v) + weight e, path := v\<rparr>))"
  from Cons.prems(4) have sub: "set es \<subseteq> set (edgeHead (vertices g v))"
    and e: "e \<in> set (edgeHead (vertices g v))" by auto
  from Cons.prems(5) consider
      (upd) "inBounds (adjVertex e)" "\<not> visited (tb s (adjVertex e))"
            "dist (tb s (adjVertex e)) > dist (tb s v) + weight e"
            "relaxEdges ?tb s v es = Some tb'"
    | (skip) "relaxEdges tb s v es = Some tb'"
    by (auto split: if_splits)
  then show ?case
  proof cases
    case upd
    have "rowInv g s (?tb s) vs"
      using rowInv_update [OF Cons.prems(1) Cons.prems(2) e upd(1) upd(2) upd(3) Cons.prems(3)]
      by simp
    from Cons.IH [OF this Cons.prems(2) Cons.prems(3) sub upd(4)] show ?thesis .
  next
    case skip
    from Cons.IH [OF Cons.prems(1) Cons.prems(2) Cons.prems(3) sub skip] show ?thesis .
  qed
qed

section \<open>The loops of the shortest-path computation\<close>

lemma helperLoop_frame:
  "helperLoop g s i tb = Some tb' \<Longrightarrow> r \<noteq> s \<Longrightarrow> tb' r = tb r"
proof (induction g s i tb rule: helperLoop.induct)
  case (1 g s i tb)
  show ?case
  proof (cases "i < gsize g")
    case False
    with "1.prems" show ?thesis by (simp add: helperLoop.simps [of g s i tb])
  next
    case True
    from "1.prems"(1) True obtain v where lv: "lowestWeightVertex g tb s = Some v"
      by (auto simp: helperLoop.simps [of g s i tb] split: option.splits)
    show ?thesis
    proof (cases "v > 0")
      case False
      with "1.prems" True lv show ?thesis by (simp add: helperLoop.simps [of g s i tb])
    next
      case pos: True
      let ?tb = "tb(s := (tb s)(v := (tb s v)\<lparr>visited := True\<rparr>))"
      from "1.prems"(1) True lv pos obtain tb1 where
        b: "inBounds v" and rl: "relaxEdges ?tb s v (edgeHead (vertices g v)) = Some tb1"
        and rest: "helperLoop g s (i + 1) tb1 = Some tb'"
        by (auto simp: helperLoop.simps [of g s i tb] split: option.splits if_splits)
      have "tb' r = tb1 r" using "1.IH" [OF True lv pos _ rl rest "1.prems"(2)] b by simp
      also have "tb1 r = ?tb r" using rl "1.prems"(2) by (rule relaxEdges_frame)
      also have "?tb r = tb r" using "1.prems"(2) by simp
      finally show ?thesis .
    qed
  qed
qed

lemma helperLoop_inv:
  "helperLoop g s i tb = Some tb' \<Longrightarrow> 1 \<le> s \<Longrightarrow> rowInv g s (tb s) vs \<Longrightarrow>
   int (length vs) \<le> i - 1 \<Longrightarrow>
   \<exists>vs'. rowInv g s (tb' s) vs' \<and> int (length vs') \<le> max (i - 1) (gsize g - 1)"
proof (induction g s i tb arbitrary: vs rule: helperLoop.induct)
  case (1 g s i tb)
  show ?case
  proof (cases "i < gsize g")
    case False
    with "1.prems" have "tb' = tb" by (simp add: helperLoop.simps [of g s i tb])
    with "1.prems" show ?thesis by (intro exI [of _ vs]) simp
  next
    case True
    from "1.prems"(1) True obtain v where lv: "lowestWeightVertex g tb s = Some v"
      by (auto simp: helperLoop.simps [of g s i tb] split: option.splits)
    show ?thesis
    proof (cases "v > 0")
      case False
      with "1.prems" True lv have "tb' = tb" by (simp add: helperLoop.simps [of g s i tb])
      with "1.prems" show ?thesis by (intro exI [of _ vs]) simp
    next
      case pos: True
      let ?tb = "tb(s := (tb s)(v := (tb s v)\<lparr>visited := True\<rparr>))"
      from "1.prems"(1) True lv pos obtain tb1 where
        b: "inBounds v" and rl: "relaxEdges ?tb s v (edgeHead (vertices g v)) = Some tb1"
        and rest: "helperLoop g s (i + 1) tb1 = Some tb'"
        by (auto simp: helperLoop.simps [of g s i tb] split: option.splits if_splits)
      from lowestWeightVertex_result [OF lv] pos have lu: "lowestUnvisited g tb s v" by auto
      then have sel: "1 \<le> v" "v \<le> gsize g" "\<not> visited (tb s v)" "dist (tb s v) < INT_MAX"
        by (simp_all add: lowestUnvisited_def)
      have "rowInv g s ((tb s)(v := (tb s v)\<lparr>visited := True\<rparr>)) (vs @ [v])"
        using "1.prems"(3) sel(1) sel(2) b sel(3) sel(4) by (rule rowInv_select)
      then have i1: "rowInv g s (?tb s) (vs @ [v])" by simp
      have i2: "rowInv g s (tb1 s) (vs @ [v])"
        using i1 _ "1.prems"(2) _ rl by (rule relaxEdges_inv) simp_all
      have len: "int (length (vs @ [v])) \<le> i + 1 - 1" using "1.prems"(4) by simp
      from "1.IH" [OF True lv pos _ rl rest "1.prems"(2) i2 len] b
      obtain vs' where "rowInv g s (tb' s) vs'"
        "int (length vs') \<le> max (i + 1 - 1) (gsize g - 1)" by auto
      with True show ?thesis by (intro exI [of _ vs']) auto
    qed
  qed
qed

lemma findShortestPathHelper_frame:
  assumes "findShortestPathHelper g s tb = Some tb'" and "r \<noteq> s"
  shows "tb' r = tb r"
proof -
  let ?tb = "tb(s := (tb s)(s := (tb s s)\<lparr>dist := 0, path := s\<rparr>))"
  from assms(1) have "helperLoop g s 1 ?tb = Some tb'"
    by (auto simp: findShortestPathHelper_def split: if_splits)
  from helperLoop_frame [OF this assms(2)] assms(2) show ?thesis by simp
qed

lemma rowInv_initial:
  assumes "\<forall>c. inBounds c \<longrightarrow> row c = \<lparr>visited = False, dist = INT_MAX, path = 0\<rparr>"
    and "inBounds s"
  shows "rowInv g s (row(s := (row s)\<lparr>dist := 0, path := s\<rparr>)) []"
  using assms by (simp add: rowInv_def)

lemma findShortestPathHelper_inv:
  assumes "findShortestPathHelper g s tb = Some tb'" and "1 \<le> s" and "s \<le> gsize g"
    and "\<forall>c. inBounds c \<longrightarrow> tb s c = \<lparr>visited = False, dist = INT_MAX, path = 0\<rparr>"
  shows "\<exists>vs. rowInv g s (tb' s) vs \<and> int (length vs) \<le> gsize g - 1"
proof -
  let ?tb = "tb(s := (tb s)(s := (tb s s)\<lparr>dist := 0, path := s\<rparr>))"
  from assms(1) have b: "inBounds s" and h: "helperLoop g s 1 ?tb = Some tb'"
    by (auto simp: findShortestPathHelper_def split: if_splits)
  have "rowInv g s ((tb s)(s := (tb s s)\<lparr>dist := 0, path := s\<rparr>)) []"
    using assms(4) b by (rule rowInv_initial)
  then have "rowInv g s (?tb s) []" by simp
  from helperLoop_inv [OF h assms(2) this] obtain vs where
    "rowInv g s (tb' s) vs" "int (length vs) \<le> max (1 - 1) (gsize g - 1)" by auto
  with assms(2,3) show ?thesis by (intro exI [of _ vs]) auto
qed

lemma allSourcesLoop_rows:
  "allSourcesLoop g i tb = Some tb' \<Longrightarrow> 1 \<le> i \<Longrightarrow>
   (\<forall>r c. inBounds c \<and> i \<le> r \<and> r \<le> gsize g \<longrightarrow>
       tb r c = \<lparr>visited = False, dist = INT_MAX, path = 0\<rparr>) \<Longrightarrow>
   (\<forall>r. i \<le> r \<and> r \<le> gsize g \<longrightarrow>
        (\<exists>vs. rowInv g r (tb' r) vs \<and> int (length vs) \<le> gsize g - 1))
   \<and> (\<forall>r. r < i \<or> gsize g < r \<longrightarrow> tb' r = tb r)"
proof (induction g i tb rule: allSourcesLoop.induct)
  case (1 g i tb)
  show ?case
  proof (cases "i \<le> gsize g")
    case False
    with "1.prems" have "tb' = tb" by (simp add: allSourcesLoop.simps [of g i tb])
    with False show ?thesis by auto
  next
    case True
    from "1.prems"(1) True obtain tb1 where
      h: "findShortestPathHelper g i tb = Some tb1" and rest: "allSourcesLoop g (i + 1) tb1 = Some tb'"
      by (auto simp: allSourcesLoop.simps [of g i tb] split: option.splits)
    have fr: "\<And>r. r \<noteq> i \<Longrightarrow> tb1 r = tb r" using h by (rule findShortestPathHelper_frame)
    have "\<forall>c. inBounds c \<longrightarrow> tb i c = \<lparr>visited = False, dist = INT_MAX, path = 0\<rparr>"
      using "1.prems"(3) True by auto
    with h "1.prems"(2) True
    obtain vs where q: "rowInv g i (tb1 i) vs" "int (length vs) \<le> gsize g - 1"
      using findShortestPathHelper_inv by blast
    have init: "\<forall>r c. inBounds c \<and> i + 1 \<le> r \<and> r \<le> gsize g \<longrightarrow>
       tb1 r c = \<lparr>visited = False, dist = INT_MAX, path = 0\<rparr>"
      using "1.prems"(3) fr by auto
    from "1.IH" [OF True h rest _ init] "1.prems"(2)
    have ih1: "\<forall>r. i + 1 \<le> r \<and> r \<le> gsize g \<longrightarrow>
        (\<exists>vs. rowInv g r (tb' r) vs \<and> int (length vs) \<le> gsize g - 1)"
      and ih2: "\<forall>r. r < i + 1 \<or> gsize g < r \<longrightarrow> tb' r = tb1 r" by auto
    have a: "\<forall>r. i \<le> r \<and> r \<le> gsize g \<longrightarrow>
        (\<exists>vs. rowInv g r (tb' r) vs \<and> int (length vs) \<le> gsize g - 1)"
    proof (intro allI impI)
      fix r assume r: "i \<le> r \<and> r \<le> gsize g"
      show "\<exists>vs. rowInv g r (tb' r) vs \<and> int (length vs) \<le> gsize g - 1"
      proof (cases "r = i")
        case True
        with ih2 have "tb' r = tb1 i" by simp
        with q True show ?thesis by auto
      next
        case False
        with r have "i + 1 \<le> r \<and> r \<le> gsize g" by simp
        with ih1 show ?thesis by blast
      qed
    qed
    have b: "\<forall>r. r < i \<or> gsize g < r \<longrightarrow> tb' r = tb r"
    proof (intro allI impI)
      fix r assume r: "r < i \<or> gsize g < r"
      with True have "r \<noteq> i" by auto
      with fr have "tb1 r = tb r" by simp
      moreover from r have "tb' r = tb1 r" using ih2 by auto
      ultimately show "tb' r = tb r" by simp
    qed
    from a b show ?thesis by simp
  qed
qed

lemma allSourcesLoop_size:
  "allSourcesLoop g i tb = Some tb' \<Longrightarrow> 1 \<le> i \<Longrightarrow> i \<le> gsize g \<Longrightarrow> gsize g < MAX_VERTICES"
proof (induction g i tb rule: allSourcesLoop.induct)
  case (1 g i tb)
  from "1.prems" obtain tb1 where
    h: "findShortestPathHelper g i tb = Some tb1" and rest: "allSourcesLoop g (i + 1) tb1 = Some tb'"
    by (auto simp: allSourcesLoop.simps [of g i tb] split: option.splits)
  from h have b: "inBounds i" by (auto simp: findShortestPathHelper_def split: if_splits)
  show ?case
  proof (cases "i = gsize g")
    case True
    with b show ?thesis by (simp add: inBounds_def)
  next
    case False
    with "1.prems" have "i + 1 \<le> gsize g" by simp
    with "1.IH" [OF "1.prems"(3) h rest] "1.prems"(2) show ?thesis by simp
  qed
qed

lemma rowInv_T_update [simp]: "rowInv (g\<lparr>T := tb\<rparr>) = rowInv g"
  by (simp add: rowInv_def fun_eq_iff)

lemma findShortestPath_rows:
  assumes "findShortestPath g = Some g'"
  shows "gsize g' = gsize g" and "vertices g' = vertices g"
    and "\<And>s. 1 \<le> s \<Longrightarrow> s \<le> gsize g \<Longrightarrow>
           \<exists>vs. rowInv g' s (T g' s) vs \<and> int (length vs) \<le> gsize g - 1"
    and "\<And>s c. inBounds s \<Longrightarrow> inBounds c \<Longrightarrow> \<not> (1 \<le> s \<and> s \<le> gsize g) \<Longrightarrow>
           T g' s c = \<lparr>visited = False, dist = INT_MAX, path = 0\<rparr>"
proof -
  from assms obtain tb where l: "allSourcesLoop g 1 (initTable (T g)) = Some tb"
    and g': "g' = g\<lparr>T := tb\<rparr>"
    by (auto simp: findShortestPath_def split: option.splits)
  show "gsize g' = gsize g" "vertices g' = vertices g" using g' by simp_all
  have init: "\<forall>r c. inBounds c \<and> 1 \<le> r \<and> r \<le> gsize g \<longrightarrow>
       initTable (T g) r c = \<lparr>visited = False, dist = INT_MAX, path = 0\<rparr>"
  proof (cases "1 \<le> gsize g")
    case True
    with l have "gsize g < MAX_VERTICES" by (intro allSourcesLoop_size [OF l]) simp_all
    then show ?thesis by (simp add: initTable_def inBounds_def)
  next
    case False
    then show ?thesis by auto
  qed
  note rows = allSourcesLoop_rows [OF l _ init]
  { fix s :: int assume "1 \<le> s" "s \<le> gsize g"
    with rows show "\<exists>vs. rowInv g' s (T g' s) vs \<and> int (length vs) \<le> gsize g - 1"
      using g' by simp }
  { fix s c assume "inBounds s" "inBounds c" "\<not> (1 \<le> s \<and> s \<le> gsize g)"
    with rows have "tb s = initTable (T g) s" by auto
    with \<open>inBounds s\<close> \<open>inBounds c\<close>
    show "T g' s c = \<lparr>visited = False, dist = INT_MAX, path = 0\<rparr>"
      using g' by (simp add: initTable_def) }
qed

section \<open>The shortest-path computation returns\<close>

text \<open>
  On a graph with bounded non-negative weights no addition of the relaxation overflows and
  no index leaves the table: the computation returns.
\<close>

lemma rowBound_mono: "rowBound row B \<Longrightarrow> B \<le> B' \<Longrightarrow> rowBound row B'"
  unfolding rowBound_def by force

lemma relaxEdges_defined:
  assumes "\<forall>e \<in> set es. inBounds (adjVertex e) \<and> 0 \<le> weight e \<and> weight e \<le> W"
    and "0 \<le> dist (tb s v)" and "dist (tb s v) \<le> B" and "visited (tb s v)"
    and "B + W \<le> INT_MAX" and "rowBound (tb s) (B + W)"
  shows "\<exists>tb'. relaxEdges tb s v es = Some tb' \<and> rowBound (tb' s) (B + W)"
  using assms
proof (induction es arbitrary: tb)
  case Nil
  then show ?case by simp
next
  case (Cons e es)
  let ?c = "adjVertex e"
  let ?n = "dist (tb s v) + weight e"
  let ?tb = "tb(s := (tb s)(?c := (tb s ?c)\<lparr>dist := ?n, path := v\<rparr>))"
  from Cons.prems(1) have e: "inBounds ?c" "0 \<le> weight e" "weight e \<le> W"
    and rest: "\<forall>e \<in> set es. inBounds (adjVertex e) \<and> 0 \<le> weight e \<and> weight e \<le> W"
    by simp_all
  from e Cons.prems(2,3,5) have n: "0 \<le> ?n" "?n \<le> B + W" "?n \<le> INT_MAX" "\<not> ?n < INT_MIN"
    by (simp_all add: INT_MIN_def)
  show ?case
  proof (cases "\<not> visited (tb s ?c) \<and> dist (tb s ?c) > ?n")
    case False
    with e n have "relaxEdges tb s v (e # es) = relaxEdges tb s v es" by auto
    with Cons.IH [of tb, OF rest Cons.prems(2-6)] show ?thesis by simp
  next
    case True
    with Cons.prems(4) have ne: "?c \<noteq> v" by auto
    from True e n have step: "relaxEdges tb s v (e # es) = relaxEdges ?tb s v es" by auto
    from ne Cons.prems(2,3,4)
    have d: "0 \<le> dist (?tb s v)" "dist (?tb s v) \<le> B" and vis: "visited (?tb s v)"
      by simp_all
    from Cons.prems(6) n have rb: "rowBound (?tb s) (B + W)"
      unfolding rowBound_def by simp
    from Cons.IH [of ?tb, OF rest d vis Cons.prems(5) rb]
    obtain tb' where "relaxEdges ?tb s v es = Some tb'" and "rowBound (tb' s) (B + W)"
      by (elim exE conjE)
    with step show ?thesis by (intro exI [of _ tb']) (simp only: simp_thms)
  qed
qed

lemma helperLoop_defined:
  "boundedGraph g W \<Longrightarrow> inBounds s \<Longrightarrow> 1 \<le> i \<Longrightarrow> rowBound (tb s) ((i - 1) * W) \<Longrightarrow>
   \<exists>tb'. helperLoop g s i tb = Some tb'"
proof (induction g s i tb rule: helperLoop.induct)
  case (1 g s i tb)
  show ?case
  proof (cases "i < gsize g")
    case False
    then show ?thesis by (simp add: helperLoop.simps [of g s i tb])
  next
    case True
    from "1.prems"(1) have W: "0 \<le> W" and sz: "gsize g < MAX_VERTICES"
      and tot: "(gsize g - 1) * W \<le> INT_MAX"
      by (simp_all add: boundedGraph_def)
    from lowestWeightLoop_defined [OF "1.prems"(2) sz, of 1 tb INT_MAX 0]
    obtain v where lv: "lowestWeightVertex g tb s = Some v"
      by (auto simp: lowestWeightVertex_def)
    show ?thesis
    proof (cases "v > 0")
      case False
      with True lv show ?thesis by (simp add: helperLoop.simps [of g s i tb])
    next
      case pos: True
      with lowestWeightVertex_result [OF lv] have low: "lowestUnvisited g tb s v" and b: "inBounds v"
        by auto
      let ?B = "(i - 1) * W"
      let ?tb = "tb(s := (tb s)(v := (tb s v)\<lparr>visited := True\<rparr>))"
      from low have rng: "1 \<le> v" "v \<le> gsize g" and fin: "dist (tb s v) < INT_MAX"
        by (simp_all add: lowestUnvisited_def)
      from "1.prems"(4) b fin have dv: "0 \<le> dist (tb s v)" "dist (tb s v) \<le> ?B"
        unfolding rowBound_def by force+
      from "1.prems"(1) rng
      have edges: "\<forall>e \<in> set (edgeHead (vertices g v)).
                     inBounds (adjVertex e) \<and> 0 \<le> weight e \<and> weight e \<le> W"
        by (simp add: boundedGraph_def)
      have BW: "?B + W = i * W" by (simp add: algebra_simps)
      from True W have "i * W \<le> (gsize g - 1) * W" by (intro mult_right_mono) simp_all
      with tot BW have le: "?B + W \<le> INT_MAX" by simp
      from W have "rowBound (tb s) (?B + W)" by (intro rowBound_mono [OF "1.prems"(4)]) simp
      hence rb: "rowBound (?tb s) (?B + W)" unfolding rowBound_def by simp
      from relaxEdges_defined [of "edgeHead (vertices g v)" W ?tb s v ?B, OF edges] dv le rb
      obtain tb1 where r: "relaxEdges ?tb s v (edgeHead (vertices g v)) = Some tb1"
        and rb1: "rowBound (tb1 s) (?B + W)" by auto
      from rb1 BW have "rowBound (tb1 s) ((i + 1 - 1) * W)" by simp
      from "1.IH" [OF True lv pos _ r "1.prems"(1,2) _ this] b "1.prems"(3)
      obtain tb' where "helperLoop g s (i + 1) tb1 = Some tb'" by auto
      with True lv pos b r show ?thesis by (simp add: helperLoop.simps [of g s i tb])
    qed
  qed
qed

lemma findShortestPathHelper_defined:
  assumes "boundedGraph g W" and "inBounds s"
    and "\<forall>c. inBounds c \<longrightarrow> tb s c = \<lparr>visited = False, dist = INT_MAX, path = 0\<rparr>"
  shows "\<exists>tb'. findShortestPathHelper g s tb = Some tb'"
proof -
  let ?tb = "tb(s := (tb s)(s := (tb s s)\<lparr>dist := 0, path := s\<rparr>))"
  from assms(3) have "rowBound (?tb s) ((1 - 1) * W)" unfolding rowBound_def by simp
  from helperLoop_defined [where tb = ?tb and i = 1, OF assms(1,2) _ this] assms(2)
  show ?thesis
    by (simp add: findShortestPathHelper_def)
qed

lemma allSourcesLoop_defined:
  "boundedGraph g W \<Longrightarrow> 1 \<le> i \<Longrightarrow>
   (\<forall>r c. inBounds c \<and> i \<le> r \<and> r \<le> gsize g \<longrightarrow>
       tb r c = \<lparr>visited = False, dist = INT_MAX, path = 0\<rparr>) \<Longrightarrow>
   \<exists>tb'. allSourcesLoop g i tb = Some tb'"
proof (induction g i tb rule: allSourcesLoop.induct)
  case (1 g i tb)
  show ?case
  proof (cases "i \<le> gsize g")
    case False
    then show ?thesis by (simp add: allSourcesLoop.simps [of g i tb])
  next
    case True
    from "1.prems"(1) have "gsize g < MAX_VERTICES" by (simp add: boundedGraph_def)
    with True "1.prems"(2) have b: "inBounds i" by (simp add: inBounds_def MAX_VERTICES_def)
    from "1.prems"(3) True
    have "\<forall>c. inBounds c \<longrightarrow> tb i c = \<lparr>visited = False, dist = INT_MAX, path = 0\<rparr>" by simp
    from findShortestPathHelper_defined [where tb = tb, OF "1.prems"(1) b this]
    obtain tb1 where h: "findShortestPathHelper g i tb = Some tb1" by auto
    have "\<forall>r c. inBounds c \<and> i + 1 \<le> r \<and> r \<le> gsize g \<longrightarrow>
            tb1 r c = \<lparr>visited = False, dist = INT_MAX, path = 0\<rparr>"
    proof (intro allI impI)
      fix r c assume a: "inBounds c \<and> i + 1 \<le> r \<and> r \<le> gsize g"
      hence "r \<noteq> i" by simp
      from findShortestPathHelper_frame [OF h this] a "1.prems"(3)
      show "tb1 r c = \<lparr>visited = False, dist = INT_MAX, path = 0\<rparr>" by simp
    qed
    from "1.IH" [OF True h "1.prems"(1) _ this] "1.prems"(2)
    obtain tb' where "allSourcesLoop g (i + 1) tb1 = Some tb'" by auto
    with True h show ?thesis by (simp add: allSourcesLoop.simps [of g i tb])
  qed
qed

lemma findShortestPath_defined:
  assumes "boundedGraph g W"
  shows "\<exists>g'. findShortestPath g = Some g'"
proof -
  have "\<forall>r c. inBounds c \<and> 1 \<le> r \<and> r \<le> gsize g \<longrightarrow>
          initTable (T g) r c = \<lparr>visited = False, dist = INT_MAX, path = 0\<rparr>"
    using assms by (simp add: initTable_def boundedGraph_def inBounds_def MAX_VERTICES_def)
  from allSourcesLoop_defined [OF assms _ this] show ?thesis
    by (auto simp: findShortestPath_def)
qed

lemma boundedGraph_nonNegWeights:
  "boundedGraph g W \<Longrightarrow> \<forall>v. edgeHead (vertices g v) \<noteq> [] \<longrightarrow> 1 \<le> v \<and> v \<le> gsize g \<Longrightarrow>
   nonNegWeights g"
  unfolding boundedGraph_def nonNegWeights_def by (metis empty_iff empty_set)

lemma boundedGraph_G3: "boundedGraph G3 10"
  by (simp add: boundedGraph_def G3_def emptyGraph_def MAX_VERTICES_def INT_MAX_def
      inBounds_def)

section \<open>The compiled addition\<close>

text \<open>
  A run in which no sum leaves the range of \<^verbatim>\<open>int\<close> is the same run with the wrapping
  addition.
\<close>

lemma wrapInt_id: "INT_MIN \<le> x \<Longrightarrow> x \<le> INT_MAX \<Longrightarrow> wrapInt x = x"
  by (simp add: wrapInt_def INT_MIN_def INT_MAX_def)

lemma relaxEdges_wrap_eq:
  "relaxEdges tb s v es = Some tb' \<Longrightarrow> relaxEdges_wrap tb s v es = Some tb'"
proof (induction es arbitrary: tb)
  case Nil
  then show ?case by simp
next
  case (Cons e es)
  let ?n = "dist (tb s v) + weight e"
  let ?tb = "tb(s := (tb s)(adjVertex e := (tb s (adjVertex e))\<lparr>dist := ?n, path := v\<rparr>))"
  from Cons.prems have b: "inBounds (adjVertex e)" by (auto split: if_splits)
  show ?case
  proof (cases "visited (tb s (adjVertex e))")
    case True
    with Cons.prems b have "relaxEdges tb s v es = Some tb'" by simp
    from Cons.IH [OF this] True b show ?thesis by simp
  next
    case False
    with Cons.prems b have r: "INT_MIN \<le> ?n" "?n \<le> INT_MAX" by (auto split: if_splits)
    hence w: "wrapInt ?n = ?n" by (rule wrapInt_id)
    show ?thesis
    proof (cases "dist (tb s (adjVertex e)) > ?n")
      case True
      with Cons.prems b False r have "relaxEdges ?tb s v es = Some tb'" by simp
      from Cons.IH [OF this] have i: "relaxEdges_wrap ?tb s v es = Some tb'" .
      from True False b w
      have "relaxEdges_wrap tb s v (e # es) = relaxEdges_wrap ?tb s v es" by simp
      with i show ?thesis by (simp only:)
    next
      case nle: False
      with Cons.prems b False r have "relaxEdges tb s v es = Some tb'" by simp
      from Cons.IH [OF this] have i: "relaxEdges_wrap tb s v es = Some tb'" .
      from nle False b w
      have "relaxEdges_wrap tb s v (e # es) = relaxEdges_wrap tb s v es" by simp
      with i show ?thesis by (simp only:)
    qed
  qed
qed

lemma helperLoop_wrap_eq:
  "helperLoop g s i tb = Some tb' \<Longrightarrow> helperLoop_wrap g s i tb = Some tb'"
proof (induction g s i tb rule: helperLoop.induct)
  case (1 g s i tb)
  show ?case
  proof (cases "i < gsize g")
    case False
    with "1.prems" have "tb' = tb" by (simp add: helperLoop.simps [of g s i tb])
    with False show ?thesis by (simp add: helperLoop_wrap.simps [of g s i tb])
  next
    case True
    from "1.prems" True obtain v where lv: "lowestWeightVertex g tb s = Some v"
      by (auto simp: helperLoop.simps [of g s i tb] split: option.splits)
    show ?thesis
    proof (cases "v > 0")
      case False
      with "1.prems" True lv have "tb' = tb" by (simp add: helperLoop.simps [of g s i tb])
      with False True lv show ?thesis by (simp add: helperLoop_wrap.simps [of g s i tb])
    next
      case pos: True
      let ?tb = "tb(s := (tb s)(v := (tb s v)\<lparr>visited := True\<rparr>))"
      from "1.prems" True lv pos obtain tb1 where b: "inBounds v"
        and r: "relaxEdges ?tb s v (edgeHead (vertices g v)) = Some tb1"
        and rest: "helperLoop g s (i + 1) tb1 = Some tb'"
        by (auto simp: helperLoop.simps [of g s i tb] split: option.splits if_splits)
      from "1.IH" [OF True lv pos _ r rest] b
      have "helperLoop_wrap g s (i + 1) tb1 = Some tb'" by simp
      with True lv pos b relaxEdges_wrap_eq [OF r] show ?thesis
        by (simp add: helperLoop_wrap.simps [of g s i tb])
    qed
  qed
qed

lemma findShortestPathHelper_wrap_eq:
  "findShortestPathHelper g s tb = Some tb' \<Longrightarrow> findShortestPathHelper_wrap g s tb = Some tb'"
  by (auto simp: findShortestPathHelper_def findShortestPathHelper_wrap_def
      intro: helperLoop_wrap_eq split: if_splits)

lemma allSourcesLoop_wrap_eq:
  "allSourcesLoop g i tb = Some tb' \<Longrightarrow> allSourcesLoop_wrap g i tb = Some tb'"
proof (induction g i tb rule: allSourcesLoop.induct)
  case (1 g i tb)
  show ?case
  proof (cases "i \<le> gsize g")
    case False
    with "1.prems" have "tb' = tb" by (simp add: allSourcesLoop.simps [of g i tb])
    with False show ?thesis by (simp add: allSourcesLoop_wrap.simps [of g i tb])
  next
    case True
    with "1.prems" obtain tb1 where h: "findShortestPathHelper g i tb = Some tb1"
      and rest: "allSourcesLoop g (i + 1) tb1 = Some tb'"
      by (auto simp: allSourcesLoop.simps [of g i tb] split: option.splits)
    from "1.IH" [OF True h rest] True findShortestPathHelper_wrap_eq [OF h] show ?thesis
      by (simp add: allSourcesLoop_wrap.simps [of g i tb])
  qed
qed

lemma findShortestPath_wrap_eq:
  "findShortestPath g = Some g' \<Longrightarrow> findShortestPath_wrap g = Some g'"
  by (auto simp: findShortestPath_def findShortestPath_wrap_def
      dest: allSourcesLoop_wrap_eq split: option.splits)

lemma Gbig_built:
  "Option.bind (insertEdge V3 1 2 2147483646) (\<lambda>r. insertEdge (snd r) 2 3 5) = Some (True, Gbig)"
  by (simp add: insertEdge_def setEdgeHead_def V3_def Gbig_def inBounds_def MAX_VERTICES_def
      fun_eq_iff)

lemma edgeChain_Gbig: "edgeChain Gbig [1, 2, 3] ws \<longleftrightarrow> ws = [2147483646, 5]"
proof (cases ws)
  case Nil
  then show ?thesis by simp
next
  case c1: (Cons w ws1)
  show ?thesis
  proof (cases ws1)
    case Nil
    with c1 show ?thesis by simp
  next
    case c2: (Cons w' ws2)
    with c1 show ?thesis by (cases ws2) (auto simp: Gbig_def)
  qed
qed

lemma nonNegWeights_Gbig: "nonNegWeights Gbig"
  by (simp add: nonNegWeights_def Gbig_def)

section \<open>Paths read back from the table\<close>

lemma edgeChain_nonempty: "edgeChain g p ws \<Longrightarrow> p \<noteq> []"
  by (induction g p ws rule: edgeChain.induct) auto

lemma edgeChain_snoc:
  "edgeChain g p ws \<Longrightarrow> \<lparr>adjVertex = c, weight = w\<rparr> \<in> set (edgeHead (vertices g (last p))) \<Longrightarrow>
   edgeChain g (p @ [c]) (ws @ [w])"
  by (induction g p ws rule: edgeChain.induct) auto

lemma edgeChain_length: "edgeChain g p ws \<Longrightarrow> length p = length ws + 1"
  by (induction g p ws rule: edgeChain.induct) auto

lemma printPath_source:
  assumes "inBounds s" and "path (tb s s) > 0"
  shows "printPath tb s s = Some [s]"
  using assms by (subst printPath.simps) simp

lemma printPath_none:
  assumes "inBounds s" and "inBounds c" and "path (tb s c) = 0"
  shows "printPath tb s c = Some []"
  using assms by (subst printPath.simps) simp

lemma printPath_step:
  assumes "inBounds s" and "inBounds c" and "path (tb s c) > 0" and "s \<noteq> c"
    and "printPath tb s (path (tb s c)) = Some p"
  shows "printPath tb s c = Some (p @ [c])"
  using assms by (subst printPath.simps) simp

lemma rowInv_printPath:
  assumes inv: "rowInv g s (tb s) vs" and bs: "inBounds s" and s1: "1 \<le> s"
  shows "inBounds c \<Longrightarrow> c = s \<or> dist (tb s c) < INT_MAX \<Longrightarrow>
         \<exists>p ws. printPath tb s c = Some p \<and> hd p = s \<and> last p = c \<and> edgeChain g p ws
                \<and> sum_list ws = dist (tb s c)
                \<and> length ws \<le> length (takeWhile (\<lambda>x. x \<noteq> c) vs)"
proof (induction "length (takeWhile (\<lambda>x. x \<noteq> c) vs)" arbitrary: c rule: less_induct)
  case less
  show ?case
  proof (cases "c = s")
    case True
    from inv s1 have "path (tb s s) > 0" "dist (tb s s) = 0" by (simp_all add: rowInv_def)
    with bs have "printPath tb s s = Some [s]" "sum_list [] = dist (tb s s)"
      by (simp_all add: printPath_source)
    with True show ?thesis
      by (intro exI [of _ "[s]"] exI [of _ "[]"]) simp
  next
    case False
    with less.prems have fin: "dist (tb s c) < INT_MAX" by simp
    let ?pr = "path (tb s c)"
    from inv less.prems(1) False fin
    have pr: "?pr \<in> set (takeWhile (\<lambda>x. x \<noteq> c) vs)"
      and ex: "\<exists>e \<in> set (edgeHead (vertices g ?pr)).
                  adjVertex e = c \<and> dist (tb s c) = dist (tb s ?pr) + weight e"
      unfolding rowInv_def by auto
    from pr have prvs: "?pr \<in> set vs" by (meson set_takeWhileD)
    with inv have prb: "inBounds ?pr" "dist (tb s ?pr) < INT_MAX" "1 \<le> ?pr"
      by (auto simp: rowInv_def)
    from takeWhile_rank [OF pr]
    have rk: "length (takeWhile (\<lambda>x. x \<noteq> ?pr) vs) < length (takeWhile (\<lambda>x. x \<noteq> c) vs)" .
    from less.hyps [OF rk prb(1)] prb(2)
    obtain p ws where p: "printPath tb s ?pr = Some p" "hd p = s" "last p = ?pr"
      "edgeChain g p ws" "sum_list ws = dist (tb s ?pr)"
      "length ws \<le> length (takeWhile (\<lambda>x. x \<noteq> ?pr) vs)" by blast
    from ex obtain e where e: "e \<in> set (edgeHead (vertices g ?pr))" "adjVertex e = c"
      "dist (tb s c) = dist (tb s ?pr) + weight e" by blast
    have "e = \<lparr>adjVertex = c, weight = weight e\<rparr>" using e(2) by (cases e) simp
    with e(1) p(3) have mem: "\<lparr>adjVertex = c, weight = weight e\<rparr>
        \<in> set (edgeHead (vertices g (last p)))" by simp
    have ch: "edgeChain g (p @ [c]) (ws @ [weight e])" using p(4) mem by (rule edgeChain_snoc)
    have ne: "p \<noteq> []" using p(4) by (rule edgeChain_nonempty)
    have pp: "printPath tb s c = Some (p @ [c])"
      using bs less.prems(1) _ _ p(1) by (rule printPath_step) (use prb False in auto)
    have "hd (p @ [c]) = s" using ne p(2) by simp
    moreover have "last (p @ [c]) = c" by simp
    moreover have "sum_list (ws @ [weight e]) = dist (tb s c)" using p(5) e(3) by simp
    moreover have "length (ws @ [weight e]) \<le> length (takeWhile (\<lambda>x. x \<noteq> c) vs)"
      using p(6) rk by simp
    ultimately show ?thesis using pp ch by blast
  qed
qed

lemma rowInv_walk:
  assumes inv: "rowInv g s (tb s) vs" and nn: "nonNegWeights g"
  shows "inBounds c \<Longrightarrow> c = s \<or> dist (tb s c) < INT_MAX \<Longrightarrow>
         \<exists>k. k \<le> length (takeWhile (\<lambda>x. x \<noteq> c) vs)
            \<and> ((\<lambda>v. path (tb s v)) ^^ k) c = s
            \<and> (\<forall>j<k. dist (tb s (((\<lambda>v. path (tb s v)) ^^ Suc j) c))
                        \<le> dist (tb s (((\<lambda>v. path (tb s v)) ^^ j) c)))"
proof (induction "length (takeWhile (\<lambda>x. x \<noteq> c) vs)" arbitrary: c rule: less_induct)
  case less
  let ?f = "\<lambda>v. path (tb s v)"
  show ?case
  proof (cases "c = s")
    case True
    then show ?thesis by (intro exI [of _ 0]) simp
  next
    case False
    with less.prems have fin: "dist (tb s c) < INT_MAX" by simp
    let ?pr = "path (tb s c)"
    from inv less.prems(1) False fin
    have pr: "?pr \<in> set (takeWhile (\<lambda>x. x \<noteq> c) vs)"
      and ex: "\<exists>e \<in> set (edgeHead (vertices g ?pr)).
                  adjVertex e = c \<and> dist (tb s c) = dist (tb s ?pr) + weight e"
      unfolding rowInv_def by auto
    from pr have prvs: "?pr \<in> set vs" by (meson set_takeWhileD)
    with inv have prb: "inBounds ?pr" "dist (tb s ?pr) < INT_MAX"
      by (auto simp: rowInv_def)
    from takeWhile_rank [OF pr]
    have rk: "length (takeWhile (\<lambda>x. x \<noteq> ?pr) vs) < length (takeWhile (\<lambda>x. x \<noteq> c) vs)" .
    from less.hyps [OF rk prb(1)] prb(2)
    obtain k where k: "k \<le> length (takeWhile (\<lambda>x. x \<noteq> ?pr) vs)" "(?f ^^ k) ?pr = s"
      "\<forall>j<k. dist (tb s ((?f ^^ Suc j) ?pr)) \<le> dist (tb s ((?f ^^ j) ?pr))" by blast
    from ex nn have step: "dist (tb s ?pr) \<le> dist (tb s c)"
      by (fastforce simp: nonNegWeights_def)
    have sh: "\<And>j. (?f ^^ Suc j) c = (?f ^^ j) ?pr"
    proof -
      fix j
      have "(?f ^^ Suc j) c = ?f ((?f ^^ j) c)" by simp
      also have "\<dots> = (?f ^^ j) (?f c)" by (rule funpow_swap1)
      finally show "(?f ^^ Suc j) c = (?f ^^ j) ?pr" .
    qed
    have "(?f ^^ Suc k) c = s" using k(2) sh by simp
    moreover have "Suc k \<le> length (takeWhile (\<lambda>x. x \<noteq> c) vs)" using k(1) rk by simp
    moreover have "\<forall>j<Suc k. dist (tb s ((?f ^^ Suc j) c)) \<le> dist (tb s ((?f ^^ j) c))"
    proof (intro allI impI)
      fix j assume j: "j < Suc k"
      show "dist (tb s ((?f ^^ Suc j) c)) \<le> dist (tb s ((?f ^^ j) c))"
      proof (cases j)
        case 0
        then show ?thesis using step by simp
      next
        case (Suc j')
        with j have "j' < k" by simp
        with k(3) have "dist (tb s ((?f ^^ Suc j') ?pr)) \<le> dist (tb s ((?f ^^ j') ?pr))" by simp
        then show ?thesis unfolding Suc sh .
      qed
    qed
    ultimately show ?thesis by blast
  qed
qed

section \<open>Distances and printed paths after the computation\<close>

lemma reachable_refl: "reachable g s s"
  unfolding reachable_def by (intro exI [of _ "[s]"] exI [of _ "[]"]) simp

lemma no_edges_unreachable:
  assumes "edgeHead (vertices g s) = []" and "s \<noteq> d"
  shows "\<not> reachable g s d"
proof
  assume "reachable g s d"
  then obtain p ws where c: "edgeChain g p ws" "hd p = s" "last p = d"
    unfolding reachable_def by blast
  show False
  proof (cases p)
    case Nil
    with c(1) show False by simp
  next
    case (Cons u q)
    show False
    proof (cases q)
      case Nil
      with Cons c assms show False by simp
    next
      case (Cons v r)
      with \<open>p = u # q\<close> c assms show False by (cases ws) simp_all
    qed
  qed
qed

lemma edgeChain_same_vertices:
  "vertices g' = vertices g \<Longrightarrow> edgeChain g' p ws = edgeChain g p ws"
  by (induction g p ws rule: edgeChain.induct) simp_all

text \<open>
  A run of \<^verbatim>\<open>findShortestPath\<close> in which no index leaves the arrays and no sum leaves the
  range of \<^verbatim>\<open>int\<close>: every distance below \<^verbatim>\<open>INT_MAX\<close> is the weight of the printed path.
\<close>

lemma printPath_weight_defined_run:
  assumes "findShortestPath g = Some g'" and "inBounds s" and "inBounds d" and "s \<noteq> d"
    and "dist (T g' s d) < INT_MAX"
  shows "vertices g' = vertices g \<and>
         (\<exists>p ws. printPath (T g') s d = Some p \<and> hd p = s \<and> last p = d
                \<and> edgeChain g' p ws \<and> sum_list ws = dist (T g' s d))"
proof -
  have in_range: "1 \<le> s \<and> s \<le> gsize g"
  proof (rule ccontr)
    assume "\<not> (1 \<le> s \<and> s \<le> gsize g)"
    with findShortestPath_rows(4) [OF assms(1) assms(2) assms(3)]
    have "dist (T g' s d) = INT_MAX" by simp
    with assms(5) show False by simp
  qed
  with findShortestPath_rows(3) [OF assms(1)] obtain vs where
    inv: "rowInv g' s (T g' s) vs" by blast
  from rowInv_printPath [where tb = "T g'" and c = d, OF inv assms(2) _ assms(3)] in_range assms(5)
  have "\<exists>p ws. printPath (T g') s d = Some p \<and> hd p = s \<and> last p = d
                \<and> edgeChain g' p ws \<and> sum_list ws = dist (T g' s d)" by blast
  with findShortestPath_rows(2) [OF assms(1)] show ?thesis by simp
qed

text \<open>
  C1 as stated fails: nothing bounds the sums of the weights.  \<^verbatim>\<open>insertEdge\<close> accepts the
  edges \<open>(1, 2, 2147483646)\<close> and \<open>(2, 3, 5)\<close>; on that graph the sum formed for vertex 3 is
  \<open>2147483651\<close>, above \<^verbatim>\<open>INT_MAX\<close> (the run has no defined result), and the compiled
  program stores \<^verbatim>\<open>T[1][3].dist = -2147483645\<close>.  That is below \<^verbatim>\<open>INT_MAX\<close>, so it is
  reported as a distance, with the path \<open>1 2 3\<close>, whose only chain of stored edges weighs
  \<open>2147483651\<close>.
\<close>

theorem printPath_weight_overflow_counterexample:
  "Option.bind (insertEdge V3 1 2 2147483646) (\<lambda>r. insertEdge (snd r) 2 3 5) = Some (True, Gbig)
   \<and> findShortestPath Gbig = None
   \<and> findShortestPath_wrap Gbig \<noteq> None
   \<and> dist (T (the (findShortestPath_wrap Gbig)) 1 3) = - 2147483645
   \<and> dist (T (the (findShortestPath_wrap Gbig)) 1 3) < INT_MAX
   \<and> printPath (T (the (findShortestPath_wrap Gbig))) 1 3 = Some [1, 2, 3]
   \<and> (\<forall>ws. edgeChain Gbig [1, 2, 3] ws \<longleftrightarrow> ws = [2147483646, 5])
   \<and> sum_list [2147483646, 5 :: int] = 2147483651"
proof -
  have "findShortestPath Gbig = None" by code_simp
  moreover have "findShortestPath_wrap Gbig \<noteq> None" by code_simp
  moreover have d: "dist (T (the (findShortestPath_wrap Gbig)) 1 3) = - 2147483645" by code_simp
  moreover from d have "dist (T (the (findShortestPath_wrap Gbig)) 1 3) < INT_MAX"
    by (simp add: INT_MAX_def)
  moreover have "printPath (T (the (findShortestPath_wrap Gbig))) 1 3 = Some [1, 2, 3]"
    by code_simp
  moreover have "\<forall>ws. edgeChain Gbig [1, 2, 3] ws \<longleftrightarrow> ws = [2147483646, 5]"
    by (simp add: edgeChain_Gbig)
  ultimately show ?thesis using Gbig_built by simp
qed

text \<open>
  C1, amended: on a graph of at most 100 vertices whose edges (of the slots \<open>1..size\<close>) lead
  to vertex numbers of the table and have weights between 0 and a bound \<open>W\<close> with
  \<open>(size - 1) * W \<le>\<close> \<^verbatim>\<open>INT_MAX\<close>, \<^verbatim>\<open>findShortestPath\<close> returns, with the checked and with the
  wrapping addition alike, and leaves the edges as they are; and for every pair \<open>s \<noteq> d\<close> of
  table indices whose distance is below \<^verbatim>\<open>INT_MAX\<close>, \<^verbatim>\<open>printPath(s, d)\<close> returns, and the
  sequence it prints starts at \<open>s\<close>, ends at \<open>d\<close> and is a chain of edges stored in the graph
  whose weights add up to \<^verbatim>\<open>T[s][d].dist\<close>.
\<close>

theorem printPath_weight_is_dist:
  assumes "boundedGraph g W" and "inBounds s" and "inBounds d" and "s \<noteq> d"
  shows "\<exists>g'. findShortestPath g = Some g' \<and> findShortestPath_wrap g = Some g'
            \<and> vertices g' = vertices g
            \<and> (dist (T g' s d) < INT_MAX \<longrightarrow>
                 (\<exists>p ws. printPath (T g') s d = Some p \<and> hd p = s \<and> last p = d
                        \<and> edgeChain g p ws \<and> sum_list ws = dist (T g' s d)))"
proof -
  from findShortestPath_defined [OF assms(1)] obtain g' where
    e: "findShortestPath g = Some g'" by blast
  have w: "findShortestPath_wrap g = Some g'" using e by (rule findShortestPath_wrap_eq)
  have "dist (T g' s d) < INT_MAX \<longrightarrow>
          (\<exists>p ws. printPath (T g') s d = Some p \<and> hd p = s \<and> last p = d
                 \<and> edgeChain g p ws \<and> sum_list ws = dist (T g' s d))"
  proof
    assume f: "dist (T g' s d) < INT_MAX"
    from printPath_weight_defined_run [OF e assms(2,3,4) f]
    obtain p ws where v: "vertices g' = vertices g"
      and p: "printPath (T g') s d = Some p" "hd p = s" "last p = d"
      and c: "edgeChain g' p ws" and sm: "sum_list ws = dist (T g' s d)" by blast
    from c edgeChain_same_vertices [OF v] have "edgeChain g p ws" by simp
    with p sm show "\<exists>p ws. printPath (T g') s d = Some p \<and> hd p = s \<and> last p = d
                 \<and> edgeChain g p ws \<and> sum_list ws = dist (T g' s d)" by blast
  qed
  moreover have "vertices g' = vertices g"
    using e by (auto simp: findShortestPath_def split: option.splits)
  ultimately show ?thesis using e w by blast
qed

theorem printPath_weight_is_dist_witness:
  "boundedGraph G3 10 \<and> inBounds 1 \<and> inBounds 3
   \<and> findShortestPath G3 \<noteq> None
   \<and> findShortestPath_wrap G3 = findShortestPath G3
   \<and> dist (T (the (findShortestPath G3)) 1 3) = 7
   \<and> printPath (T (the (findShortestPath G3))) 1 3 = Some [1, 2, 3]
   \<and> (\<exists>p ws. printPath (T (the (findShortestPath G3))) 1 3 = Some p \<and> hd p = 1 \<and> last p = 3
          \<and> edgeChain G3 p ws
          \<and> sum_list ws = dist (T (the (findShortestPath G3)) 1 3))"
proof -
  have b1: "inBounds 1" and b3: "inBounds 3" by (simp_all add: inBounds_def MAX_VERTICES_def)
  have ne: "(1 :: int) \<noteq> 3" by simp
  from printPath_weight_is_dist [OF boundedGraph_G3 b1 b3 ne] obtain g' where
    e: "findShortestPath G3 = Some g'" and w: "findShortestPath_wrap G3 = Some g'"
    and imp: "dist (T g' 1 3) < INT_MAX \<longrightarrow>
       (\<exists>p ws. printPath (T g') 1 3 = Some p \<and> hd p = 1 \<and> last p = 3
              \<and> edgeChain G3 p ws \<and> sum_list ws = dist (T g' 1 3))" by blast
  from e have t: "the (findShortestPath G3) = g'" by simp
  have d: "dist (T (the (findShortestPath G3)) 1 3) = 7" by code_simp
  have p: "printPath (T (the (findShortestPath G3))) 1 3 = Some [1, 2, 3]" by code_simp
  from d t have "dist (T g' 1 3) < INT_MAX" by (simp add: INT_MAX_def)
  with imp have "\<exists>p ws. printPath (T g') 1 3 = Some p \<and> hd p = 1 \<and> last p = 3
              \<and> edgeChain G3 p ws \<and> sum_list ws = dist (T g' 1 3)" by simp
  with t e w d p b1 b3 boundedGraph_G3 show ?thesis by simp
qed

text \<open>
  A run of \<^verbatim>\<open>findShortestPath\<close> in which no index leaves the arrays and no sum leaves the
  range of \<^verbatim>\<open>int\<close>, on non-negative weights: the \<^verbatim>\<open>path\<close> entries lead back to the source
  and no step increases the distance.
\<close>

lemma predecessor_walk_defined_run:
  assumes "findShortestPath g = Some g'" and "nonNegWeights g" and "inBounds s" and "inBounds d"
    and "dist (T g' s d) < INT_MAX"
  shows "\<exists>k. int k \<le> gsize g - 1
            \<and> ((\<lambda>v. path (T g' s v)) ^^ k) d = s
            \<and> (\<forall>j<k. dist (T g' s (((\<lambda>v. path (T g' s v)) ^^ Suc j) d))
                        \<le> dist (T g' s (((\<lambda>v. path (T g' s v)) ^^ j) d)))"
proof -
  have in_range: "1 \<le> s \<and> s \<le> gsize g"
  proof (rule ccontr)
    assume "\<not> (1 \<le> s \<and> s \<le> gsize g)"
    with findShortestPath_rows(4) [OF assms(1) assms(3) assms(4)]
    have "dist (T g' s d) = INT_MAX" by simp
    with assms(5) show False by simp
  qed
  with findShortestPath_rows(3) [OF assms(1)] obtain vs where
    inv: "rowInv g' s (T g' s) vs" and len: "int (length vs) \<le> gsize g - 1" by blast
  have nn: "nonNegWeights g'"
    using assms(2) findShortestPath_rows(2) [OF assms(1)] by (simp add: nonNegWeights_def)
  from rowInv_walk [where tb = "T g'" and c = d, OF inv nn assms(4)] assms(5)
  obtain k where k: "k \<le> length (takeWhile (\<lambda>x. x \<noteq> d) vs)"
    "((\<lambda>v. path (T g' s v)) ^^ k) d = s"
    "\<forall>j<k. dist (T g' s (((\<lambda>v. path (T g' s v)) ^^ Suc j) d))
                        \<le> dist (T g' s (((\<lambda>v. path (T g' s v)) ^^ j) d))" by blast
  have "k \<le> length vs" using k(1) takeWhile_length_le [of "\<lambda>x. x \<noteq> d" vs] by simp
  with len have "int k \<le> gsize g - 1" by simp
  with k(2,3) show ?thesis by blast
qed

lemma nonNegWeights_G3: "nonNegWeights G3"
  by (simp add: nonNegWeights_def G3_def)

text \<open>
  C4 as stated fails: nothing bounds the sums of the weights.  On the graph with the edges
  \<open>(1, 2, 2147483646)\<close> and \<open>(2, 3, 5)\<close>, which \<^verbatim>\<open>insertEdge\<close> accepts, the sum formed for
  vertex 3 is above \<^verbatim>\<open>INT_MAX\<close> (the run has no defined result), and the compiled program
  stores \<^verbatim>\<open>T[1][3].dist = -2147483645\<close> with \<^verbatim>\<open>path\<close> 2.  That distance is below
  \<^verbatim>\<open>INT_MAX\<close>, and the walk \<open>3, 2, 1\<close> of the \<^verbatim>\<open>path\<close> entries meets the distances
  \<open>-2147483645\<close>, \<open>2147483646\<close>, \<open>0\<close>: its first step increases the distance.
\<close>

theorem predecessor_walk_overflow_counterexample:
  "Option.bind (insertEdge V3 1 2 2147483646) (\<lambda>r. insertEdge (snd r) 2 3 5) = Some (True, Gbig)
   \<and> nonNegWeights Gbig
   \<and> findShortestPath Gbig = None
   \<and> findShortestPath_wrap Gbig \<noteq> None
   \<and> dist (T (the (findShortestPath_wrap Gbig)) 1 3) < INT_MAX
   \<and> path (T (the (findShortestPath_wrap Gbig)) 1 3) = 2
   \<and> path (T (the (findShortestPath_wrap Gbig)) 1 2) = 1
   \<and> dist (T (the (findShortestPath_wrap Gbig)) 1 3) = - 2147483645
   \<and> dist (T (the (findShortestPath_wrap Gbig)) 1 2) = 2147483646
   \<and> dist (T (the (findShortestPath_wrap Gbig)) 1 1) = 0
   \<and> dist (T (the (findShortestPath_wrap Gbig)) 1 3)
       < dist (T (the (findShortestPath_wrap Gbig)) 1
                 (path (T (the (findShortestPath_wrap Gbig)) 1 3)))"
proof -
  have "findShortestPath Gbig = None" by code_simp
  moreover have "findShortestPath_wrap Gbig \<noteq> None" by code_simp
  moreover have p3: "path (T (the (findShortestPath_wrap Gbig)) 1 3) = 2" by code_simp
  moreover have "path (T (the (findShortestPath_wrap Gbig)) 1 2) = 1" by code_simp
  moreover have d3: "dist (T (the (findShortestPath_wrap Gbig)) 1 3) = - 2147483645"
    by code_simp
  moreover have d2: "dist (T (the (findShortestPath_wrap Gbig)) 1 2) = 2147483646"
    by code_simp
  moreover have "dist (T (the (findShortestPath_wrap Gbig)) 1 1) = 0" by code_simp
  moreover from d3 have "dist (T (the (findShortestPath_wrap Gbig)) 1 3) < INT_MAX"
    by (simp add: INT_MAX_def)
  moreover from p3 d3 d2
  have "dist (T (the (findShortestPath_wrap Gbig)) 1 3)
          < dist (T (the (findShortestPath_wrap Gbig)) 1
                    (path (T (the (findShortestPath_wrap Gbig)) 1 3)))" by simp
  ultimately show ?thesis using Gbig_built nonNegWeights_Gbig by simp
qed

text \<open>
  C4, amended: on a graph of at most 100 vertices whose stored weights are all non-negative
  and whose edges (of the slots \<open>1..size\<close>) lead to vertex numbers of the table and have
  weights of at most a bound \<open>W\<close> with \<open>(size - 1) * W \<le>\<close> \<^verbatim>\<open>INT_MAX\<close>, \<^verbatim>\<open>findShortestPath\<close>
  returns, with the checked and with the wrapping addition alike; and for every pair of
  table indices \<open>(s, d)\<close> with a distance below \<^verbatim>\<open>INT_MAX\<close>, following the \<^verbatim>\<open>path\<close> entries
  of row \<open>s\<close> from \<open>d\<close> arrives at \<open>s\<close> after at most \<open>size - 1\<close> steps, and no step increases
  the distance.
\<close>

theorem predecessor_walk_reaches_source:
  assumes "boundedGraph g W" and "nonNegWeights g" and "inBounds s" and "inBounds d"
  shows "\<exists>g'. findShortestPath g = Some g' \<and> findShortestPath_wrap g = Some g'
            \<and> (dist (T g' s d) < INT_MAX \<longrightarrow>
                 (\<exists>k. int k \<le> gsize g - 1
                     \<and> ((\<lambda>v. path (T g' s v)) ^^ k) d = s
                     \<and> (\<forall>j<k. dist (T g' s (((\<lambda>v. path (T g' s v)) ^^ Suc j) d))
                                 \<le> dist (T g' s (((\<lambda>v. path (T g' s v)) ^^ j) d)))))"
proof -
  from findShortestPath_defined [OF assms(1)] obtain g' where
    e: "findShortestPath g = Some g'" by blast
  have w: "findShortestPath_wrap g = Some g'" using e by (rule findShortestPath_wrap_eq)
  have "dist (T g' s d) < INT_MAX \<longrightarrow>
          (\<exists>k. int k \<le> gsize g - 1
              \<and> ((\<lambda>v. path (T g' s v)) ^^ k) d = s
              \<and> (\<forall>j<k. dist (T g' s (((\<lambda>v. path (T g' s v)) ^^ Suc j) d))
                          \<le> dist (T g' s (((\<lambda>v. path (T g' s v)) ^^ j) d))))"
    using predecessor_walk_defined_run [OF e assms(2,3,4)] by (rule impI)
  with e w show ?thesis by blast
qed

theorem predecessor_walk_reaches_source_witness:
  "boundedGraph G3 10 \<and> nonNegWeights G3 \<and> inBounds 1 \<and> inBounds 3
   \<and> findShortestPath G3 \<noteq> None
   \<and> findShortestPath_wrap G3 = findShortestPath G3
   \<and> dist (T (the (findShortestPath G3)) 1 3) < INT_MAX
   \<and> (\<exists>k. int k \<le> gsize G3 - 1
         \<and> ((\<lambda>v. path (T (the (findShortestPath G3)) 1 v)) ^^ k) 3 = 1
         \<and> (\<forall>j<k. dist (T (the (findShortestPath G3)) 1
                            (((\<lambda>v. path (T (the (findShortestPath G3)) 1 v)) ^^ Suc j) 3))
                   \<le> dist (T (the (findShortestPath G3)) 1
                            (((\<lambda>v. path (T (the (findShortestPath G3)) 1 v)) ^^ j) 3))))"
proof -
  have b1: "inBounds 1" and b3: "inBounds 3" by (simp_all add: inBounds_def MAX_VERTICES_def)
  from predecessor_walk_reaches_source [OF boundedGraph_G3 nonNegWeights_G3 b1 b3]
  obtain g' where e: "findShortestPath G3 = Some g'"
    and w: "findShortestPath_wrap G3 = Some g'"
    and imp: "dist (T g' 1 3) < INT_MAX \<longrightarrow>
       (\<exists>k. int k \<le> gsize G3 - 1
           \<and> ((\<lambda>v. path (T g' 1 v)) ^^ k) 3 = 1
           \<and> (\<forall>j<k. dist (T g' 1 (((\<lambda>v. path (T g' 1 v)) ^^ Suc j) 3))
                       \<le> dist (T g' 1 (((\<lambda>v. path (T g' 1 v)) ^^ j) 3))))" by blast
  from e have t: "the (findShortestPath G3) = g'" by simp
  have f: "dist (T (the (findShortestPath G3)) 1 3) < INT_MAX" by code_simp
  with t have f': "dist (T g' 1 3) < INT_MAX" by simp
  from imp f' have "\<exists>k. int k \<le> gsize G3 - 1
           \<and> ((\<lambda>v. path (T g' 1 v)) ^^ k) 3 = 1
           \<and> (\<forall>j<k. dist (T g' 1 (((\<lambda>v. path (T g' 1 v)) ^^ Suc j) 3))
                       \<le> dist (T g' 1 (((\<lambda>v. path (T g' 1 v)) ^^ j) 3)))" by (rule mp)
  with t e w f' b1 b3 boundedGraph_G3 nonNegWeights_G3 show ?thesis by simp
qed

text \<open>
  C5 as stated fails: for a vertex \<open>v\<close> of the graph \<^verbatim>\<open>T[v][v].path\<close> is \<open>v\<close>, so
  \<^verbatim>\<open>printPath(v, v)\<close> prints \<open>v\<close>; on the three-vertex graph the sequence for \<open>(1, 1)\<close> is
  \<open>[1]\<close>, not the empty one.
\<close>

theorem printPath_self_counterexample:
  "printPath (T (the (findShortestPath G3))) 1 1 = Some [1]"
  by code_simp

text \<open>
  C5, amended: when \<^verbatim>\<open>findShortestPath\<close> has run, every vertex \<open>v\<close> of \<open>1..size\<close> has
  \<^verbatim>\<open>T[v][v].dist = 0\<close> and \<^verbatim>\<open>printPath(v, v)\<close> prints the one-element sequence \<open>v\<close>; and for
  every pair of table indices \<open>(s, d)\<close> such that no chain of stored edges leads from \<open>s\<close> to
  \<open>d\<close>, \<^verbatim>\<open>printPath(s, d)\<close> prints nothing.
\<close>

theorem self_distance_and_unreachable_path:
  assumes "findShortestPath g = Some g'"
  shows "(\<forall>v. 1 \<le> v \<and> v \<le> gsize g \<longrightarrow>
              dist (T g' v v) = 0 \<and> printPath (T g') v v = Some [v])
       \<and> (\<forall>s d. inBounds s \<and> inBounds d \<and> \<not> reachable g s d \<longrightarrow>
              printPath (T g') s d = Some [])"
proof (intro conjI allI impI)
  fix v assume v: "1 \<le> v \<and> v \<le> gsize g"
  with findShortestPath_rows(3) [OF assms] obtain vs where
    inv: "rowInv g' v (T g' v) vs" by blast
  then have dp: "dist (T g' v v) = 0" "path (T g' v v) = v" by (simp_all add: rowInv_def)
  from v allSourcesLoop_size [of g 1 "initTable (T g)"] assms have "inBounds v"
    by (auto simp: findShortestPath_def inBounds_def split: option.splits)
  with dp v show "dist (T g' v v) = 0" "printPath (T g') v v = Some [v]"
    by (simp_all add: printPath_source)
next
  fix s d assume a: "inBounds s \<and> inBounds d \<and> \<not> reachable g s d"
  have veq: "vertices g' = vertices g" using assms by (rule findShortestPath_rows(2))
  have p0: "path (T g' s d) = 0"
  proof (cases "1 \<le> s \<and> s \<le> gsize g")
    case False
    with findShortestPath_rows(4) [OF assms, of s d] a show ?thesis by simp
  next
    case True
    with findShortestPath_rows(3) [OF assms] obtain vs where
      inv: "rowInv g' s (T g' s) vs" by blast
    from a have ds: "d \<noteq> s" using reachable_refl [of g s] by auto
    have nf: "\<not> dist (T g' s d) < INT_MAX"
    proof
      assume "dist (T g' s d) < INT_MAX"
      with rowInv_printPath [where tb = "T g'" and c = d, OF inv] a True
      obtain p ws where "hd p = s" "last p = d" "edgeChain g' p ws" by auto
      moreover have "edgeChain g' p ws = edgeChain g p ws"
        using veq by (rule edgeChain_same_vertices)
      ultimately have "reachable g s d" unfolding reachable_def by blast
      with a show False by simp
    qed
    from inv a ds nf show ?thesis unfolding rowInv_def by auto
  qed
  with a show "printPath (T g') s d = Some []" by (simp add: printPath_none)
qed

theorem self_distance_and_unreachable_path_witness:
  "findShortestPath G3 \<noteq> None \<and> (1 :: int) \<le> 2 \<and> 2 \<le> gsize G3
   \<and> dist (T (the (findShortestPath G3)) 2 2) = 0
   \<and> printPath (T (the (findShortestPath G3))) 2 2 = Some [2]
   \<and> inBounds 3 \<and> inBounds 1 \<and> \<not> reachable G3 3 1
   \<and> printPath (T (the (findShortestPath G3))) 3 1 = Some []"
proof -
  have n: "findShortestPath G3 \<noteq> None" by code_simp
  then have e: "findShortestPath G3 = Some (the (findShortestPath G3))" by simp
  have b1: "inBounds 1" and b3: "inBounds 3" by (simp_all add: inBounds_def MAX_VERTICES_def)
  have sz: "(1 :: int) \<le> 2 \<and> 2 \<le> gsize G3" by (simp add: G3_def)
  have u: "\<not> reachable G3 3 1" by (rule no_edges_unreachable) (simp_all add: G3_def)
  from self_distance_and_unreachable_path [OF e] n b1 b3 sz u show ?thesis by blast
qed

section \<open>The relaxation loop\<close>

lemma helperLoopTraced_fst:
  "helperLoop g s i tb = map_option fst (helperLoopTraced g s i tb)"
proof (induction g s i tb rule: helperLoop.induct)
  case (1 g s i tb)
  show ?case
  proof (cases "i < gsize g")
    case False
    then show ?thesis
      by (simp add: helperLoop.simps [of g s i tb] helperLoopTraced.simps [of g s i tb])
  next
    case True
    show ?thesis
    proof (cases "lowestWeightVertex g tb s")
      case None
      with True show ?thesis
        by (simp add: helperLoop.simps [of g s i tb] helperLoopTraced.simps [of g s i tb])
    next
      case (Some v)
      show ?thesis
      proof (cases "v > 0 \<and> inBounds v")
        case False
        with True Some show ?thesis
          by (auto simp: helperLoop.simps [of g s i tb] helperLoopTraced.simps [of g s i tb])
      next
        case sel: True
        let ?tb = "tb(s := (tb s)(v := (tb s v)\<lparr>visited := True\<rparr>))"
        show ?thesis
        proof (cases "relaxEdges ?tb s v (edgeHead (vertices g v))")
          case None
          with True Some sel show ?thesis
            by (simp add: helperLoop.simps [of g s i tb] helperLoopTraced.simps [of g s i tb])
        next
          case (Some tb1)
          from "1.IH" [OF True \<open>lowestWeightVertex g tb s = Some v\<close> _ _ Some] sel
          have "helperLoop g s (i + 1) tb1 = map_option fst (helperLoopTraced g s (i + 1) tb1)"
            by simp
          with True \<open>lowestWeightVertex g tb s = Some v\<close> sel Some show ?thesis
            by (simp add: helperLoop.simps [of g s i tb] helperLoopTraced.simps [of g s i tb]
                split: option.splits)
        qed
      qed
    qed
  qed
qed

lemma helperLoopTraced_trace:
  "helperLoopTraced g s i tb = Some (tb', tr) \<Longrightarrow>
   int (length tr) \<le> max 0 (gsize g - i)
   \<and> (\<forall>(tbk, v) \<in> set tr. lowestUnvisited g tbk s v)
   \<and> (int (length tr) < gsize g - i \<longrightarrow> noneUnvisited g tb' s)"
proof (induction g s i tb arbitrary: tr rule: helperLoopTraced.induct)
  case (1 g s i tb)
  show ?case
  proof (cases "i < gsize g")
    case False
    with "1.prems" have "tr = []" by (simp add: helperLoopTraced.simps [of g s i tb])
    with False show ?thesis by simp
  next
    case True
    from "1.prems"(1) True obtain v where lv: "lowestWeightVertex g tb s = Some v"
      by (auto simp: helperLoopTraced.simps [of g s i tb] split: option.splits)
    show ?thesis
    proof (cases "v > 0")
      case False
      with "1.prems" True lv have t: "tr = []" "tb' = tb"
        by (simp_all add: helperLoopTraced.simps [of g s i tb])
      from lowestWeightVertex_result [OF lv] False have "noneUnvisited g tb s"
        by (auto simp: lowestUnvisited_def)
      with t show ?thesis by simp
    next
      case pos: True
      let ?tb = "tb(s := (tb s)(v := (tb s v)\<lparr>visited := True\<rparr>))"
      from "1.prems"(1) True lv pos obtain tb1 tr1 where
        b: "inBounds v" and rl: "relaxEdges ?tb s v (edgeHead (vertices g v)) = Some tb1"
        and rest: "helperLoopTraced g s (i + 1) tb1 = Some (tb', tr1)"
        and tr: "tr = (tb, v) # tr1"
        by (auto simp: helperLoopTraced.simps [of g s i tb] split: option.splits if_splits)
      from lowestWeightVertex_result [OF lv] pos have lu: "lowestUnvisited g tb s v" by auto
      from "1.IH" [OF True lv pos _ rl rest] b
      have ih: "int (length tr1) \<le> max 0 (gsize g - (i + 1))"
        "\<forall>(tbk, v) \<in> set tr1. lowestUnvisited g tbk s v"
        "int (length tr1) < gsize g - (i + 1) \<longrightarrow> noneUnvisited g tb' s" by simp_all
      from ih(1) True have "int (length tr) \<le> max 0 (gsize g - i)" unfolding tr by simp
      moreover from ih(2) lu have "\<forall>(tbk, v) \<in> set tr. lowestUnvisited g tbk s v"
        unfolding tr by simp
      moreover from ih(3) have "int (length tr) < gsize g - i \<longrightarrow> noneUnvisited g tb' s"
        unfolding tr by simp
      ultimately show ?thesis by blast
    qed
  qed
qed

lemma helperLoopTraced_none_left:
  assumes "inBounds s" and "gsize g < MAX_VERTICES" and "noneUnvisited g tb s"
  shows "helperLoopTraced g s i tb = Some (tb, [])"
proof (cases "i < gsize g")
  case False
  then show ?thesis by (simp add: helperLoopTraced.simps [of g s i tb])
next
  case True
  from lowestWeightLoop_defined [OF assms(1) assms(2), of 1 tb INT_MAX 0]
  obtain v where lv: "lowestWeightVertex g tb s = Some v"
    by (auto simp: lowestWeightVertex_def)
  from lowestWeightVertex_result [OF lv] assms(3) lowestUnvisited_excl [of g tb s v]
  have "v = 0" by blast
  with True lv show ?thesis by (simp add: helperLoopTraced.simps [of g s i tb])
qed

text \<open>
  C3: in one run for a source \<open>s\<close> (the loop of \<^verbatim>\<open>findShortestPathHelper\<close> entered with
  \<open>i = 1\<close>) the loop body is executed at most \<open>size - 1\<close> times; the vertex selected in each
  executed iteration is, in the table at that moment, the unvisited vertex of \<open>1..size\<close> with
  the smallest distance below \<^verbatim>\<open>INT_MAX\<close>, the lowest-numbered one among equals; a run that
  stops before \<open>size - 1\<close> iterations does so with no unvisited vertex of finite distance left;
  and when no such vertex exists on entry no iteration of the body runs: the loop returns at
  once with the table unchanged.
\<close>

theorem relaxation_loop_selection:
  "(helperLoopTraced g s 1 tb = Some (tb', tr) \<longrightarrow>
      helperLoop g s 1 tb = Some tb'
      \<and> int (length tr) \<le> max 0 (gsize g - 1)
      \<and> (\<forall>(tbk, v) \<in> set tr. lowestUnvisited g tbk s v)
      \<and> (int (length tr) < gsize g - 1 \<longrightarrow> noneUnvisited g tb' s))
   \<and> (inBounds s \<and> gsize g < MAX_VERTICES \<and> noneUnvisited g tb s \<longrightarrow>
        helperLoopTraced g s i tb = Some (tb, []) \<and> helperLoop g s i tb = Some tb)"
proof (intro conjI impI)
  assume a: "helperLoopTraced g s 1 tb = Some (tb', tr)"
  then show "helperLoop g s 1 tb = Some tb'" by (simp add: helperLoopTraced_fst)
  from helperLoopTraced_trace [OF a]
  show "int (length tr) \<le> max 0 (gsize g - 1)"
    "\<forall>(tbk, v) \<in> set tr. lowestUnvisited g tbk s v"
    "int (length tr) < gsize g - 1 \<Longrightarrow> noneUnvisited g tb' s" by simp_all
next
  assume "inBounds s \<and> gsize g < MAX_VERTICES \<and> noneUnvisited g tb s"
  then have t: "helperLoopTraced g s i tb = Some (tb, [])"
    by (intro helperLoopTraced_none_left) simp_all
  then show "helperLoopTraced g s i tb = Some (tb, [])" .
  from t show "helperLoop g s i tb = Some tb" by (simp add: helperLoopTraced_fst)
qed

theorem relaxation_loop_selection_witness:
  "helperLoopTraced G3 1 1 (rowStart 1) \<noteq> None
   \<and> helperLoop G3 1 1 (rowStart 1) = Some (fst (the (helperLoopTraced G3 1 1 (rowStart 1))))
   \<and> map snd (snd (the (helperLoopTraced G3 1 1 (rowStart 1)))) = [1, 2]
   \<and> list_all (\<lambda>(tbk, v). lowestUnvisited G3 tbk 1 v)
         (snd (the (helperLoopTraced G3 1 1 (rowStart 1))))
   \<and> inBounds 3 \<and> gsize G3 < MAX_VERTICES \<and> noneUnvisited G3 (initTable tableZero) 3
   \<and> helperLoop G3 3 1 (initTable tableZero) = Some (initTable tableZero)"
proof -
  let ?r = "helperLoopTraced G3 1 1 (rowStart 1)"
  have n: "?r \<noteq> None" by code_simp
  then have e: "?r = Some (fst (the ?r), snd (the ?r))" by simp
  have m: "map snd (snd (the ?r)) = [1, 2]" by code_simp
  have b: "inBounds 3" "gsize G3 < MAX_VERTICES"
    by (simp_all add: inBounds_def MAX_VERTICES_def G3_def)
  have u: "noneUnvisited G3 (initTable tableZero) 3"
    by (simp add: noneUnvisited_def initTable_def inBounds_def MAX_VERTICES_def G3_def)
  from relaxation_loop_selection [where g = G3 and s = 1 and tb = "rowStart 1"
        and tb' = "fst (the ?r)" and tr = "snd (the ?r)"]
    relaxation_loop_selection [where g = G3 and s = 3 and tb = "initTable tableZero" and i = 1]
    e n m b u
  show ?thesis by (simp add: list_all_iff)
qed

section \<open>Lists in the store\<close>

lemma heapList_length: "heapList h p as es \<Longrightarrow> length as = length es"
proof (induction as arbitrary: p es)
  case Nil
  then show ?case by (cases es) auto
next
  case (Cons a as)
  then show ?case by (cases es) (auto split: option.splits)
qed

lemma heapList_frame:
  "\<forall>a \<in> set as. edgeNodes h' a = edgeNodes h a \<Longrightarrow> heapList h' p as es = heapList h p as es"
proof (induction as arbitrary: p es)
  case Nil
  then show ?case by (cases es) auto
next
  case (Cons a as)
  then show ?case by (cases es) (auto split: option.splits)
qed

lemma heapList_allocated:
  "heapList h p as es \<Longrightarrow> a \<in> set as \<Longrightarrow> edgeNodes h a \<noteq> None"
proof (induction as arbitrary: p es)
  case Nil
  then show ?case by simp
next
  case (Cons b as)
  then show ?case by (cases es) (auto split: option.splits)
qed

lemma heapList_same_addresses:
  "heapList h p as es \<Longrightarrow> heapList h p bs fs \<Longrightarrow> as = bs"
proof (induction as arbitrary: p es bs fs)
  case Nil
  then have "p = None" by (cases es) auto
  with Nil.prems(2) show ?case by (cases bs; cases fs) auto
next
  case (Cons a as)
  from Cons.prems(1) obtain e es' where es: "es = e # es'" by (cases es) auto
  with Cons.prems(1) obtain n where n: "p = Some a" "edgeNodes h a = Some n"
    "heapList h (nextEdge n) as es'" by (auto split: option.splits)
  from Cons.prems(2) n(1) obtain b bs' f fs' where bs: "bs = b # bs'" "fs = f # fs'"
    by (cases bs; cases fs) auto
  with Cons.prems(2) n have b: "b = a" "heapList h (nextEdge n) bs' fs'" by auto
  from Cons.IH [OF n(3) b(2)] bs b(1) show ?case by simp
qed

lemma heapList_suffix:
  "heapList h p (xs @ a # ys) es \<Longrightarrow> heapList h (Some a) (a # ys) (drop (length xs) es)"
proof (induction xs arbitrary: p es)
  case Nil
  then show ?case by (cases es) auto
next
  case (Cons x xs)
  from Cons.prems obtain e es' where es: "es = e # es'" by (cases es) auto
  with Cons.prems obtain n where "edgeNodes h x = Some n" "heapList h (nextEdge n) (xs @ a # ys) es'"
    by (auto split: option.splits)
  from Cons.IH [OF this(2)] es show ?case by simp
qed

lemma heapList_distinct: "heapList h p as es \<Longrightarrow> distinct as"
proof (induction as arbitrary: p es)
  case Nil
  then show ?case by simp
next
  case (Cons a as)
  from Cons.prems obtain e es' where es: "es = e # es'" by (cases es) auto
  with Cons.prems obtain n where n: "p = Some a" "edgeNodes h a = Some n"
    "heapList h (nextEdge n) as es'" by (auto split: option.splits)
  have "a \<notin> set as"
  proof
    assume "a \<in> set as"
    then obtain xs ys where s: "as = xs @ a # ys" by (meson split_list)
    with n(3) have "heapList h (Some a) (a # ys) (drop (length xs) es')"
      by (auto dest: heapList_suffix)
    with Cons.prems n(1) have "a # as = a # ys" by (auto dest: heapList_same_addresses)
    with s show False by simp
  qed
  with Cons.IH [OF n(3)] show ?case by simp
qed

lemma deleteEdges_list:
  "heapList h p as es \<Longrightarrow>
   deleteEdges h p = Some (h\<lparr>edgeNodes := (\<lambda>a. if a \<in> set as then None else edgeNodes h a)\<rparr>)"
proof (induction as arbitrary: h p es)
  case Nil
  then have "p = None" by (cases es) auto
  then show ?case by (subst deleteEdges.simps) simp
next
  case (Cons a as)
  from Cons.prems obtain e es' where es: "es = e # es'" by (cases es) auto
  with Cons.prems obtain n where n: "p = Some a" "edgeNodes h a = Some n"
    "heapList h (nextEdge n) as es'" by (auto split: option.splits)
  from Cons.prems have "distinct (a # as)" by (rule heapList_distinct)
  then have na: "a \<notin> set as" by simp
  let ?h = "h\<lparr>edgeNodes := (edgeNodes h)(a := None)\<rparr>"
  have "heapList ?h (nextEdge n) as es' = heapList h (nextEdge n) as es'"
    using na by (intro heapList_frame) auto
  with n(3) have "heapList ?h (nextEdge n) as es'" by simp
  from Cons.IH [OF this]
  have "deleteEdges ?h (nextEdge n)
        = Some (?h\<lparr>edgeNodes := (\<lambda>x. if x \<in> set as then None else edgeNodes ?h x)\<rparr>)" .
  moreover have "(\<lambda>x. if x \<in> set as then None else edgeNodes ?h x)
                 = (\<lambda>x. if x \<in> set (a # as) then None else edgeNodes h x)"
    by (auto simp: fun_eq_iff)
  ultimately show ?case using n by (subst deleteEdges.simps) simp
qed

section \<open>clearGraph on the store\<close>

lemma clearedStore_empty_range:
  assumes "n < i" and "graphObjs h this = Some G"
  shows "clearedStore h this G fp dp i n = h"
proof -
  have "(\<lambda>k. if i \<le> k \<and> k \<le> n then \<lparr>edgeHeadPtr = None, dataPtr = None\<rparr> else verticesPtr G k)
        = verticesPtr G" using assms(1) by (auto simp: fun_eq_iff)
  moreover have "(\<lambda>a. if \<exists>k. i \<le> k \<and> k \<le> n \<and> a \<in> set (fp k) then None else edgeNodes h a)
        = edgeNodes h" using assms(1) by (auto simp: fun_eq_iff)
  moreover have "(\<lambda>a. if \<exists>k. i \<le> k \<and> k \<le> n \<and> a = dp k then None else vertexObjs h a)
        = vertexObjs h" using assms(1) by (auto simp: fun_eq_iff)
  moreover have "(graphObjs h)(this \<mapsto> G) = graphObjs h" using assms(2) by (auto simp: fun_eq_iff)
  ultimately show ?thesis by (simp add: clearedStore_def)
qed

lemma clearLoopStore_result:
  "1 \<le> i \<Longrightarrow> n < MAX_VERTICES \<Longrightarrow> graphObjs h this = Some G \<Longrightarrow>
   (\<forall>k. i \<le> k \<and> k \<le> n \<longrightarrow> heapList h (edgeHeadPtr (verticesPtr G k)) (fp k) (es k)) \<Longrightarrow>
   (\<forall>k l. i \<le> k \<and> k \<le> n \<and> i \<le> l \<and> l \<le> n \<and> k \<noteq> l \<longrightarrow> set (fp k) \<inter> set (fp l) = {}) \<Longrightarrow>
   (\<forall>k. i \<le> k \<and> k \<le> n \<longrightarrow>
        dataPtr (verticesPtr G k) = Some (dp k) \<and> vertexObjs h (dp k) \<noteq> None) \<Longrightarrow>
   (\<forall>k l. i \<le> k \<and> k \<le> n \<and> i \<le> l \<and> l \<le> n \<and> k \<noteq> l \<longrightarrow> dp k \<noteq> dp l) \<Longrightarrow>
   clearLoopStore h this n i = Some (clearedStore h this G fp dp i n)"
proof (induction h this n i arbitrary: G rule: clearLoopStore.induct)
  case (1 h this n i)
  show ?case
  proof (cases "i \<le> n")
    case False
    then have "clearedStore h this G fp dp i n = h"
      using "1.prems"(3) by (intro clearedStore_empty_range) simp_all
    with False show ?thesis by (simp add: clearLoopStore.simps [of h this n i])
  next
    case True
    with "1.prems" have b: "inBounds i" by (simp add: inBounds_def)
    let ?h1 = "h\<lparr>edgeNodes := (\<lambda>a. if a \<in> set (fp i) then None else edgeNodes h a)\<rparr>"
    let ?h2 = "?h1\<lparr>vertexObjs := (vertexObjs ?h1)(dp i := None)\<rparr>"
    let ?G2 = "withData (withEdgeHead G i None) i None"
    let ?h3 = "putGraph ?h2 this ?G2"
    from "1.prems"(4) True have li: "heapList h (edgeHeadPtr (verticesPtr G i)) (fp i) (es i)"
      by simp
    then have de: "deleteEdges h (edgeHeadPtr (verticesPtr G i)) = Some ?h1"
      by (rule deleteEdges_list)
    from "1.prems"(6) True have di: "dataPtr (verticesPtr G i) = Some (dp i)"
      "vertexObjs h (dp i) \<noteq> None" by simp_all
    then have dv: "deleteVertex ?h1 (dataPtr (verticesPtr G i)) = Some ?h2"
      by (auto simp: deleteVertex_def)
    have g3: "graphObjs ?h3 this = Some ?G2" by (simp add: putGraph_def)
    have l3: "\<forall>k. i + 1 \<le> k \<and> k \<le> n \<longrightarrow>
                heapList ?h3 (edgeHeadPtr (verticesPtr ?G2 k)) (fp k) (es k)"
    proof (intro allI impI)
      fix k assume k: "i + 1 \<le> k \<and> k \<le> n"
      with "1.prems"(5) True have "set (fp k) \<inter> set (fp i) = {}" by simp
      then have "\<forall>a \<in> set (fp k). edgeNodes ?h3 a = edgeNodes h a"
        by (auto simp: putGraph_def)
      then have "heapList ?h3 (edgeHeadPtr (verticesPtr G k)) (fp k) (es k)
                 = heapList h (edgeHeadPtr (verticesPtr G k)) (fp k) (es k)"
        by (rule heapList_frame)
      moreover from k have "verticesPtr ?G2 k = verticesPtr G k"
        by (simp add: withData_def withEdgeHead_def)
      ultimately show "heapList ?h3 (edgeHeadPtr (verticesPtr ?G2 k)) (fp k) (es k)"
        using "1.prems"(4) k by simp
    qed
    have d3: "\<forall>k l. i + 1 \<le> k \<and> k \<le> n \<and> i + 1 \<le> l \<and> l \<le> n \<and> k \<noteq> l \<longrightarrow>
                set (fp k) \<inter> set (fp l) = {}"
      using "1.prems"(5) by simp
    have v3: "\<forall>k. i + 1 \<le> k \<and> k \<le> n \<longrightarrow>
        dataPtr (verticesPtr ?G2 k) = Some (dp k) \<and> vertexObjs ?h3 (dp k) \<noteq> None"
    proof (intro allI impI)
      fix k assume k: "i + 1 \<le> k \<and> k \<le> n"
      with "1.prems"(7) True have "dp k \<noteq> dp i" by simp
      moreover from k have "verticesPtr ?G2 k = verticesPtr G k"
        by (simp add: withData_def withEdgeHead_def)
      ultimately show "dataPtr (verticesPtr ?G2 k) = Some (dp k) \<and> vertexObjs ?h3 (dp k) \<noteq> None"
        using "1.prems"(6) k by (simp add: putGraph_def)
    qed
    have i3: "\<forall>k l. i + 1 \<le> k \<and> k \<le> n \<and> i + 1 \<le> l \<and> l \<le> n \<and> k \<noteq> l \<longrightarrow> dp k \<noteq> dp l"
      using "1.prems"(7) by simp
    have ih: "clearLoopStore ?h3 this n (i + 1) = Some (clearedStore ?h3 this ?G2 fp dp (i + 1) n)"
      using "1.prems"(1,2) g3 l3 d3 v3 i3
      by (intro "1.IH" [OF True _ "1.prems"(3) de dv]) (simp_all add: b)
    have e1: "(\<lambda>a. if \<exists>k. i + 1 \<le> k \<and> k \<le> n \<and> a \<in> set (fp k) then None else edgeNodes ?h3 a)
            = (\<lambda>a. if \<exists>k. i \<le> k \<and> k \<le> n \<and> a \<in> set (fp k) then None else edgeNodes h a)"
    proof
      fix a
      have "(\<exists>k. i \<le> k \<and> k \<le> n \<and> a \<in> set (fp k))
            \<longleftrightarrow> a \<in> set (fp i) \<or> (\<exists>k. i + 1 \<le> k \<and> k \<le> n \<and> a \<in> set (fp k))"
        using True by (metis add1_zle_eq order_le_less)
      then show "(if \<exists>k. i + 1 \<le> k \<and> k \<le> n \<and> a \<in> set (fp k) then None else edgeNodes ?h3 a)
            = (if \<exists>k. i \<le> k \<and> k \<le> n \<and> a \<in> set (fp k) then None else edgeNodes h a)"
        by (auto simp: putGraph_def)
    qed
    have e2: "(\<lambda>a. if \<exists>k. i + 1 \<le> k \<and> k \<le> n \<and> a = dp k then None else vertexObjs ?h3 a)
            = (\<lambda>a. if \<exists>k. i \<le> k \<and> k \<le> n \<and> a = dp k then None else vertexObjs h a)"
    proof
      fix a
      have "(\<exists>k. i \<le> k \<and> k \<le> n \<and> a = dp k)
            \<longleftrightarrow> a = dp i \<or> (\<exists>k. i + 1 \<le> k \<and> k \<le> n \<and> a = dp k)"
        using True by (metis add1_zle_eq order_le_less)
      then show "(if \<exists>k. i + 1 \<le> k \<and> k \<le> n \<and> a = dp k then None else vertexObjs ?h3 a)
            = (if \<exists>k. i \<le> k \<and> k \<le> n \<and> a = dp k then None else vertexObjs h a)"
        by (auto simp: putGraph_def)
    qed
    have e3: "(\<lambda>k. if i + 1 \<le> k \<and> k \<le> n then \<lparr>edgeHeadPtr = None, dataPtr = None\<rparr>
                   else verticesPtr ?G2 k)
            = (\<lambda>k. if i \<le> k \<and> k \<le> n then \<lparr>edgeHeadPtr = None, dataPtr = None\<rparr>
                   else verticesPtr G k)"
      using True by (auto simp: fun_eq_iff withData_def withEdgeHead_def)
    have "clearedStore ?h3 this ?G2 fp dp (i + 1) n = clearedStore h this G fp dp i n"
      unfolding clearedStore_def e1 e2 e3
      by (simp add: putGraph_def withData_def withEdgeHead_def)
    with ih have "clearLoopStore ?h3 this n (i + 1) = Some (clearedStore h this G fp dp i n)"
      by simp
    with True b "1.prems"(3) de dv show ?thesis
      by (simp add: clearLoopStore.simps [of h this n i])
  qed
qed

section \<open>copyGraph on the store\<close>

lemma copyEdges_result:
  "heapList h f fs es \<Longrightarrow> edgeNodes h current = Some cn \<Longrightarrow> nextEdge cn = None \<Longrightarrow>
   current \<notin> set fs \<Longrightarrow> (\<forall>a. edgeNodes h a \<noteq> None \<longrightarrow> a < nextAddr h) \<Longrightarrow>
   \<exists>h'. copyEdges h current f = Some h'
      \<and> nextAddr h' = nextAddr h + length fs
      \<and> vertexObjs h' = vertexObjs h \<and> graphObjs h' = graphObjs h
      \<and> (\<forall>a. a \<noteq> current \<and> a < nextAddr h \<longrightarrow> edgeNodes h' a = edgeNodes h a)
      \<and> (\<forall>a. edgeNodes h' a \<noteq> None \<longrightarrow> a < nextAddr h')
      \<and> heapList h' (Some current) (current # [nextAddr h ..< nextAddr h + length fs])
           (\<lparr>adjVertex = adjVertex cn, weight = weight cn\<rparr> # es)"
proof (induction fs arbitrary: h current cn f es)
  case Nil
  then have f: "f = None" "es = []" by (cases es; auto)+
  have "copyEdges h current None = Some h" by (subst copyEdges.simps) simp
  moreover have "heapList h (Some current) [current]
                   [\<lparr>adjVertex = adjVertex cn, weight = weight cn\<rparr>]"
    using Nil.prems(2,3) by simp
  ultimately show ?case using f Nil.prems(5) by simp
next
  case (Cons fa fs)
  from Cons.prems(1) obtain e es' where es: "es = e # es'" by (cases es) auto
  with Cons.prems(1) obtain fn where fn: "f = Some fa" "edgeNodes h fa = Some fn"
    "adjVertex fn = adjVertex e" "weight fn = weight e" "heapList h (nextEdge fn) fs es'"
    by (auto split: option.splits)
  let ?N = "nextAddr h"
  let ?new = "\<lparr>adjVertex = adjVertex fn, weight = weight fn, nextEdge = None\<rparr>"
  let ?h1 = "newEdgeNode h ?new"
  let ?h2 = "?h1\<lparr>edgeNodes := (edgeNodes ?h1)(current \<mapsto> cn\<lparr>nextEdge := Some ?N\<rparr>)\<rparr>"
  from Cons.prems(2,5) have cN: "current < ?N" by auto
  then have c1: "edgeNodes ?h1 current = Some cn"
    using Cons.prems(2) by (simp add: newEdgeNode_def)
  have step: "copyEdges h current f = copyEdges ?h2 ?N (nextEdge fn)"
    using fn(1,2) c1 by (subst copyEdges.simps) simp
  have below: "\<forall>a \<in> set (fa # fs). a < ?N"
    using Cons.prems(1,5) heapList_allocated by blast
  have fr: "\<forall>a \<in> set fs. edgeNodes ?h2 a = edgeNodes h a"
    using below Cons.prems(4) by (auto simp: newEdgeNode_def)
  have l2: "heapList ?h2 (nextEdge fn) fs es'"
    using fn(5) heapList_frame [OF fr] by simp
  have n2: "edgeNodes ?h2 ?N = Some ?new" using cN by (simp add: newEdgeNode_def)
  have nn: "?N \<notin> set fs" using below by auto
  have a2: "\<forall>a. edgeNodes ?h2 a \<noteq> None \<longrightarrow> a < nextAddr ?h2"
    using Cons.prems(5) cN by (auto simp: newEdgeNode_def less_Suc_eq)
  from Cons.IH [OF l2 n2 _ nn a2]
  obtain h' where h': "copyEdges ?h2 ?N (nextEdge fn) = Some h'"
    "nextAddr h' = nextAddr ?h2 + length fs"
    "vertexObjs h' = vertexObjs ?h2" "graphObjs h' = graphObjs ?h2"
    "\<forall>a. a \<noteq> ?N \<and> a < nextAddr ?h2 \<longrightarrow> edgeNodes h' a = edgeNodes ?h2 a"
    "\<forall>a. edgeNodes h' a \<noteq> None \<longrightarrow> a < nextAddr h'"
    "heapList h' (Some ?N) (?N # [nextAddr ?h2 ..< nextAddr ?h2 + length fs])
       (\<lparr>adjVertex = adjVertex ?new, weight = weight ?new\<rparr> # es')"
    by auto
  have n2': "nextAddr ?h2 = Suc ?N" by (simp add: newEdgeNode_def)
  have e: "\<lparr>adjVertex = adjVertex ?new, weight = weight ?new\<rparr> = e"
    using fn(3,4) by (cases e) simp
  have up: "[?N ..< ?N + length (fa # fs)] = ?N # [Suc ?N ..< Suc ?N + length fs]"
  proof -
    have "?N < ?N + length (fa # fs)" by simp
    then have "[?N ..< ?N + length (fa # fs)] = ?N # [Suc ?N ..< ?N + length (fa # fs)]"
      by (rule upt_conv_Cons)
    then show ?thesis by simp
  qed
  have cur: "edgeNodes h' current = Some (cn\<lparr>nextEdge := Some ?N\<rparr>)"
    using h'(5) cN n2' by simp
  have "heapList h' (Some current) (current # [?N ..< ?N + length (fa # fs)])
           (\<lparr>adjVertex = adjVertex cn, weight = weight cn\<rparr> # es)"
    unfolding up es using cur h'(7) unfolding e n2' by simp
  moreover have "\<forall>a. a \<noteq> current \<and> a < ?N \<longrightarrow> edgeNodes h' a = edgeNodes h a"
    using h'(5) n2' by (auto simp: newEdgeNode_def)
  moreover have "nextAddr h' = ?N + length (fa # fs)" using h'(2) n2' by simp
  moreover have "vertexObjs h' = vertexObjs h" "graphObjs h' = graphObjs h"
    using h'(3,4) by (simp_all add: newEdgeNode_def)
  ultimately show ?case using step h'(1,6) by simp
qed

lemma copySlot_result:
  assumes ne: "this \<noteq> fromGraph"
    and G: "graphObjs h this = Some G" and F: "graphObjs h fromGraph = Some F"
    and fd: "dataPtr (verticesPtr F i) = Some fd" "vertexObjs h fd = Some l"
    and fl: "heapList h (edgeHeadPtr (verticesPtr F i)) fs es"
    and al: "allocatedBelow h"
  shows "\<exists>h' p as.
           copySlot h this fromGraph i = Some h'
         \<and> nextAddr h < nextAddr h' \<and> allocatedBelow h'
         \<and> (\<forall>a. a < nextAddr h \<longrightarrow>
                edgeNodes h' a = edgeNodes h a \<and> vertexObjs h' a = vertexObjs h a)
         \<and> (\<forall>obj. obj \<noteq> this \<longrightarrow> graphObjs h' obj = graphObjs h obj)
         \<and> graphObjs h' this = Some (withEdgeHead (withData G i (Some (nextAddr h))) i p)
         \<and> heapList h' p as es
         \<and> (\<forall>a \<in> set as. nextAddr h \<le> a \<and> a < nextAddr h')
         \<and> vertexObjs h' (nextAddr h) = Some l"
proof -
  let ?N = "nextAddr h"
  let ?hv = "(newVertex h [])\<lparr>vertexObjs := (vertexObjs (newVertex h []))(?N \<mapsto> l)\<rparr>"
  let ?G1 = "withData G i (Some ?N)"
  from al have ae: "\<And>a. edgeNodes h a \<noteq> None \<Longrightarrow> a < ?N"
    and av: "\<And>a. vertexObjs h a \<noteq> None \<Longrightarrow> a < ?N" by (auto simp: allocatedBelow_def)
  from fd(2) av have fdN: "fd < ?N" by auto
  then have l1: "vertexObjs (newVertex h []) fd = Some l"
    using fd(2) by (simp add: newVertex_def)
  show ?thesis
  proof (cases "edgeHeadPtr (verticesPtr F i)")
    case None
    with fl have e: "fs = []" "es = []" by (cases fs; cases es; auto)+
    let ?h' = "putGraph ?hv this (withEdgeHead ?G1 i None)"
    have "copySlot h this fromGraph i = Some ?h'"
      using G F fd(1) l1 None by (simp add: copySlot_def)
    moreover have "allocatedBelow ?h'"
      using ae av by (auto simp: allocatedBelow_def putGraph_def newVertex_def less_Suc_eq)
    moreover have "heapList ?h' None [] es" using e by simp
    ultimately show ?thesis
      by (intro exI [of _ ?h'] exI [of _ None] exI [of _ "[]"])
         (simp add: putGraph_def newVertex_def)
  next
    case (Some f)
    with fl obtain fa fs' e es' where s: "fs = fa # fs'" "es = e # es'"
      by (cases fs; cases es; auto)
    with fl Some obtain fn where fn: "fa = f" "edgeNodes h f = Some fn"
      "adjVertex fn = adjVertex e" "weight fn = weight e" "heapList h (nextEdge fn) fs' es'"
      by (auto split: option.splits)
    let ?new = "\<lparr>adjVertex = adjVertex fn, weight = weight fn, nextEdge = None\<rparr>"
    let ?G2 = "withEdgeHead ?G1 i (Some (Suc ?N))"
    let ?hp = "putGraph (newEdgeNode ?hv ?new) this ?G2"
    have cs: "copySlot h this fromGraph i = copyEdges ?hp (Suc ?N) (nextEdge fn)"
      using G F fd(1) l1 Some fn(2) by (simp add: copySlot_def)
    have below: "\<forall>a \<in> set fs. a < ?N" using fl ae heapList_allocated by blast
    have ep: "edgeNodes ?hp = (edgeNodes h)(Suc ?N \<mapsto> ?new)"
      by (simp add: putGraph_def newEdgeNode_def newVertex_def)
    have np: "nextAddr ?hp = Suc (Suc ?N)"
      by (simp add: putGraph_def newEdgeNode_def newVertex_def)
    have "\<forall>a \<in> set fs'. edgeNodes ?hp a = edgeNodes h a" using below s ep by auto
    from heapList_frame [OF this] fn(5) have lp: "heapList ?hp (nextEdge fn) fs' es'" by simp
    have cp: "edgeNodes ?hp (Suc ?N) = Some ?new" using ep by simp
    have nin: "Suc ?N \<notin> set fs'" using below s by auto
    have ap: "\<forall>a. edgeNodes ?hp a \<noteq> None \<longrightarrow> a < nextAddr ?hp"
      using ae unfolding ep np by (auto simp: less_Suc_eq)
    from copyEdges_result [OF lp cp _ nin ap]
    obtain h' where h': "copyEdges ?hp (Suc ?N) (nextEdge fn) = Some h'"
      "nextAddr h' = nextAddr ?hp + length fs'"
      "vertexObjs h' = vertexObjs ?hp" "graphObjs h' = graphObjs ?hp"
      "\<forall>a. a \<noteq> Suc ?N \<and> a < nextAddr ?hp \<longrightarrow> edgeNodes h' a = edgeNodes ?hp a"
      "\<forall>a. edgeNodes h' a \<noteq> None \<longrightarrow> a < nextAddr h'"
      "heapList h' (Some (Suc ?N)) (Suc ?N # [nextAddr ?hp ..< nextAddr ?hp + length fs'])
         (\<lparr>adjVertex = adjVertex ?new, weight = weight ?new\<rparr> # es')"
      by auto
    have e: "\<lparr>adjVertex = adjVertex ?new, weight = weight ?new\<rparr> = e"
      using fn(3,4) by (cases e) simp
    let ?as = "Suc ?N # [nextAddr ?hp ..< nextAddr ?hp + length fs']"
    have vp: "vertexObjs ?hp = (vertexObjs h)(?N \<mapsto> l)"
      by (simp add: putGraph_def newEdgeNode_def newVertex_def)
    have 1: "nextAddr h < nextAddr h'" using h'(2) np by simp
    have 2: "allocatedBelow h'"
      unfolding allocatedBelow_def
    proof (intro conjI allI impI)
      fix a assume "edgeNodes h' a \<noteq> None"
      with h'(6) show "a < nextAddr h'" by simp
    next
      fix a assume "vertexObjs h' a \<noteq> None"
      then have "a = ?N \<or> vertexObjs h a \<noteq> None"
        using h'(3) vp by (auto split: if_splits)
      then have "a \<le> ?N" using av [of a] by auto
      with 1 show "a < nextAddr h'" by simp
    qed
    have 3: "\<forall>a. a < ?N \<longrightarrow> edgeNodes h' a = edgeNodes h a \<and> vertexObjs h' a = vertexObjs h a"
      using h'(5) h'(3) unfolding np ep vp by auto
    have 4: "\<forall>obj. obj \<noteq> this \<longrightarrow> graphObjs h' obj = graphObjs h obj"
      using h'(4) by (simp add: putGraph_def newEdgeNode_def newVertex_def)
    have 5: "graphObjs h' this = Some ?G2"
      using h'(4) by (simp add: putGraph_def)
    have 6: "heapList h' (Some (Suc ?N)) ?as es" using h'(7) unfolding e s by simp
    have 7: "\<forall>a \<in> set ?as. ?N \<le> a \<and> a < nextAddr h'" using h'(2) np by auto
    have 8: "vertexObjs h' ?N = Some l" using h'(3) vp by simp
    from cs h'(1) 1 2 3 4 5 6 7 8 show ?thesis
      by (intro exI [of _ h'] exI [of _ "Some (Suc ?N)"] exI [of _ ?as]) simp
  qed
qed

lemma copyInv_step:
  assumes ne: "this \<noteq> fromGraph" and F: "graphObjs h0 fromGraph = Some F"
    and src: "heapList h0 (edgeHeadPtr (verticesPtr F i)) fs (esF i)"
      "dataPtr (verticesPtr F i) = Some fd" "vertexObjs h0 fd = Some (lsF i)"
    and al0: "allocatedBelow h0"
    and inv: "copyInv h0 Gs esF lsF this h G fp dp i" and i1: "1 \<le> i"
  shows "\<exists>h1 G1 fp1 dp1. copySlot h this fromGraph i = Some h1
            \<and> copyInv h0 Gs esF lsF this h1 G1 fp1 dp1 (i + 1)"
proof -
  let ?M = "nextAddr h0" and ?N = "nextAddr h"
  from inv have G: "graphObjs h this = Some G"
    and sz: "sizeObj G = sizeObj Gs" "tableObj G = tableObj Gs"
    and out: "\<forall>k. \<not> (1 \<le> k \<and> k < i) \<longrightarrow> verticesPtr G k = verticesPtr Gs k"
    and dn: "\<forall>k. 1 \<le> k \<and> k < i \<longrightarrow>
           heapList h (edgeHeadPtr (verticesPtr G k)) (fp k) (esF k)
         \<and> (\<forall>a \<in> set (fp k). ?M \<le> a \<and> a < ?N)
         \<and> dataPtr (verticesPtr G k) = Some (dp k)
         \<and> ?M \<le> dp k \<and> dp k < ?N \<and> vertexObjs h (dp k) = Some (lsF k)"
    and dis: "\<forall>k l. 1 \<le> k \<and> k < i \<and> 1 \<le> l \<and> l < i \<and> k \<noteq> l \<longrightarrow>
           set (fp k) \<inter> set (fp l) = {} \<and> dp k \<noteq> dp l"
    and le: "?M \<le> ?N" and al: "allocatedBelow h"
    and old: "\<forall>a. a < ?M \<longrightarrow> edgeNodes h a = edgeNodes h0 a \<and> vertexObjs h a = vertexObjs h0 a"
    and oth: "\<forall>obj. obj \<noteq> this \<longrightarrow> graphObjs h obj = graphObjs h0 obj"
    unfolding copyInv_def by simp_all
  from al0 have a0: "\<And>a. edgeNodes h0 a \<noteq> None \<Longrightarrow> a < ?M"
    "\<And>a. vertexObjs h0 a \<noteq> None \<Longrightarrow> a < ?M" by (auto simp: allocatedBelow_def)
  have Fh: "graphObjs h fromGraph = Some F" using oth ne F by simp
  have "\<forall>a \<in> set fs. a < ?M" using src(1) a0(1) heapList_allocated by blast
  then have "\<forall>a \<in> set fs. edgeNodes h a = edgeNodes h0 a" using old by simp
  from heapList_frame [OF this] src(1)
  have fl: "heapList h (edgeHeadPtr (verticesPtr F i)) fs (esF i)" by simp
  have "fd < ?M" using src(3) a0(2) by auto
  then have fdh: "vertexObjs h fd = Some (lsF i)" using old src(3) by simp
  from copySlot_result [OF ne G Fh src(2) fdh fl al]
  obtain h1 p as where r: "copySlot h this fromGraph i = Some h1"
    "?N < nextAddr h1" "allocatedBelow h1"
    "\<forall>a. a < ?N \<longrightarrow> edgeNodes h1 a = edgeNodes h a \<and> vertexObjs h1 a = vertexObjs h a"
    "\<forall>obj. obj \<noteq> this \<longrightarrow> graphObjs h1 obj = graphObjs h obj"
    "graphObjs h1 this = Some (withEdgeHead (withData G i (Some ?N)) i p)"
    "heapList h1 p as (esF i)"
    "\<forall>a \<in> set as. ?N \<le> a \<and> a < nextAddr h1"
    "vertexObjs h1 ?N = Some (lsF i)" by blast
  let ?G1 = "withEdgeHead (withData G i (Some ?N)) i p"
  let ?fp = "fp(i := as)" and ?dp = "dp(i := ?N)"
  have vi: "verticesPtr ?G1 i = \<lparr>edgeHeadPtr = p, dataPtr = Some ?N\<rparr>"
    by (simp add: withEdgeHead_def withData_def)
  have vk: "\<And>k. k \<noteq> i \<Longrightarrow> verticesPtr ?G1 k = verticesPtr G k"
    by (simp add: withEdgeHead_def withData_def)
  have c2: "sizeObj ?G1 = sizeObj Gs" "tableObj ?G1 = tableObj Gs"
    using sz by (simp_all add: withEdgeHead_def withData_def)
  have c3: "\<forall>k. \<not> (1 \<le> k \<and> k < i + 1) \<longrightarrow> verticesPtr ?G1 k = verticesPtr Gs k"
    using out vk i1 by auto
  have c4: "\<forall>k. 1 \<le> k \<and> k < i + 1 \<longrightarrow>
           heapList h1 (edgeHeadPtr (verticesPtr ?G1 k)) (?fp k) (esF k)
         \<and> (\<forall>a \<in> set (?fp k). ?M \<le> a \<and> a < nextAddr h1)
         \<and> dataPtr (verticesPtr ?G1 k) = Some (?dp k)
         \<and> ?M \<le> ?dp k \<and> ?dp k < nextAddr h1 \<and> vertexObjs h1 (?dp k) = Some (lsF k)"
  proof (intro allI impI)
    fix k assume k: "1 \<le> k \<and> k < i + 1"
    show "heapList h1 (edgeHeadPtr (verticesPtr ?G1 k)) (?fp k) (esF k)
         \<and> (\<forall>a \<in> set (?fp k). ?M \<le> a \<and> a < nextAddr h1)
         \<and> dataPtr (verticesPtr ?G1 k) = Some (?dp k)
         \<and> ?M \<le> ?dp k \<and> ?dp k < nextAddr h1 \<and> vertexObjs h1 (?dp k) = Some (lsF k)"
    proof (cases "k = i")
      case True
      have "\<forall>a \<in> set as. ?M \<le> a \<and> a < nextAddr h1" using r(8) le by auto
      with True r(7) r(9) r(2) le vi show ?thesis by simp
    next
      case False
      with k have kk: "1 \<le> k \<and> k < i" by simp
      with dn have d: "heapList h (edgeHeadPtr (verticesPtr G k)) (fp k) (esF k)"
        "\<forall>a \<in> set (fp k). ?M \<le> a \<and> a < ?N"
        "dataPtr (verticesPtr G k) = Some (dp k)"
        "?M \<le> dp k" "dp k < ?N" "vertexObjs h (dp k) = Some (lsF k)" by blast+
      have "\<forall>a \<in> set (fp k). edgeNodes h1 a = edgeNodes h a" using d(2) r(4) by simp
      from heapList_frame [OF this] d(1)
      have "heapList h1 (edgeHeadPtr (verticesPtr G k)) (fp k) (esF k)" by simp
      moreover have "\<forall>a \<in> set (fp k). ?M \<le> a \<and> a < nextAddr h1" using d(2) r(2) by auto
      moreover have "vertexObjs h1 (dp k) = Some (lsF k)" using d(5,6) r(4) by simp
      moreover have "dp k < nextAddr h1" using d(5) r(2) by simp
      ultimately show ?thesis using False d(3,4) vk by simp
    qed
  qed
  have c5: "\<forall>k l. 1 \<le> k \<and> k < i + 1 \<and> 1 \<le> l \<and> l < i + 1 \<and> k \<noteq> l \<longrightarrow>
           set (?fp k) \<inter> set (?fp l) = {} \<and> ?dp k \<noteq> ?dp l"
  proof (intro allI impI)
    fix k l assume kl: "1 \<le> k \<and> k < i + 1 \<and> 1 \<le> l \<and> l < i + 1 \<and> k \<noteq> l"
    have new_old: "\<And>m. 1 \<le> m \<and> m < i \<Longrightarrow> set as \<inter> set (fp m) = {} \<and> ?N \<noteq> dp m"
    proof -
      fix m assume "1 \<le> m \<and> m < i"
      with dn have "\<forall>a \<in> set (fp m). a < ?N" "dp m < ?N" by blast+
      with r(8) show "set as \<inter> set (fp m) = {} \<and> ?N \<noteq> dp m" by fastforce
    qed
    show "set (?fp k) \<inter> set (?fp l) = {} \<and> ?dp k \<noteq> ?dp l"
    proof (cases "k = i")
      case True
      with kl have "1 \<le> l \<and> l < i" by simp
      from new_old [OF this] True kl show ?thesis by simp
    next
      case False
      show ?thesis
      proof (cases "l = i")
        case True
        with kl False have "1 \<le> k \<and> k < i" by simp
        from new_old [OF this] True False show ?thesis by auto
      next
        case lf: False
        with False kl have "1 \<le> k \<and> k < i \<and> 1 \<le> l \<and> l < i \<and> k \<noteq> l" by simp
        with dis False lf show ?thesis by simp
      qed
    qed
  qed
  have c6: "?M \<le> nextAddr h1" using le r(2) by simp
  have c7: "\<forall>a. a < ?M \<longrightarrow>
           edgeNodes h1 a = edgeNodes h0 a \<and> vertexObjs h1 a = vertexObjs h0 a"
    using old r(4) le by simp
  have c8: "\<forall>obj. obj \<noteq> this \<longrightarrow> graphObjs h1 obj = graphObjs h0 obj" using oth r(5) by simp
  have "copyInv h0 Gs esF lsF this h1 ?G1 ?fp ?dp (i + 1)"
    unfolding copyInv_def
    by (intro conjI) (fact r(6) c2 c3 c4 c5 c6 r(3) c7 c8)+
  with r(1) show ?thesis by blast
qed

lemma copyLoop_inv:
  assumes ne: "this \<noteq> fromGraph" and F: "graphObjs h0 fromGraph = Some F"
    and src: "\<forall>k. 1 \<le> k \<and> k \<le> n \<longrightarrow>
        heapList h0 (edgeHeadPtr (verticesPtr F k)) (fpF k) (esF k)
        \<and> dataPtr (verticesPtr F k) = Some (dpF k) \<and> vertexObjs h0 (dpF k) = Some (lsF k)"
    and al0: "allocatedBelow h0" and nb: "n < MAX_VERTICES"
  shows "copyInv h0 Gs esF lsF this h G fp dp i \<Longrightarrow> 1 \<le> i \<Longrightarrow>
         \<exists>h' G' fp' dp'. copyLoop h this fromGraph n i = Some h'
            \<and> copyInv h0 Gs esF lsF this h' G' fp' dp' (max i (n + 1))"
proof (induction "nat (n + 1 - i)" arbitrary: h G fp dp i)
  case 0
  then have "n < i" by simp
  then have "copyLoop h this fromGraph n i = Some h" "max i (n + 1) = i"
    by (simp_all add: copyLoop.simps [of h this fromGraph n i])
  with "0.prems"(1) show ?case by auto
next
  case (Suc m)
  then have le: "i \<le> n" by simp
  with Suc.prems(2) nb have b: "inBounds i" by (simp add: inBounds_def)
  from src le Suc.prems(2)
  have s: "heapList h0 (edgeHeadPtr (verticesPtr F i)) (fpF i) (esF i)"
    "dataPtr (verticesPtr F i) = Some (dpF i)" "vertexObjs h0 (dpF i) = Some (lsF i)"
    by simp_all
  from copyInv_step [OF ne F s al0 Suc.prems(1) Suc.prems(2)]
  obtain h1 G1 fp1 dp1 where st: "copySlot h this fromGraph i = Some h1"
    "copyInv h0 Gs esF lsF this h1 G1 fp1 dp1 (i + 1)" by blast
  have m: "m = nat (n + 1 - (i + 1))" using Suc.hyps(2) by simp
  from Suc.hyps(1) [OF m st(2)] Suc.prems(2)
  obtain h' G' fp' dp' where r: "copyLoop h1 this fromGraph n (i + 1) = Some h'"
    "copyInv h0 Gs esF lsF this h' G' fp' dp' (max (i + 1) (n + 1))" by auto
  have "copyLoop h this fromGraph n i = Some h'"
    using le b st(1) r(1) by (simp add: copyLoop.simps [of h this fromGraph n i])
  moreover have "max (i + 1) (n + 1) = max i (n + 1)" using le by simp
  ultimately show ?case using r(2) by auto
qed

lemma copyInv_start:
  assumes "graphObjs h this = Some G" and "allocatedBelow h"
  shows "copyInv h G esF lsF this h G fp dp 1"
  using assms unfolding copyInv_def by auto

text \<open>What \<open>copyGraph\<close> establishes, for a source whose slots \<open>1..size\<close> are well formed.\<close>

lemma copyGraph_result:
  assumes ne: "this \<noteq> fromGraph" and F: "graphObjs h fromGraph = Some F"
    and G: "graphObjs h this = Some G" and sz: "sizeObj G < MAX_VERTICES"
    and src: "\<forall>k. 1 \<le> k \<and> k \<le> sizeObj G \<longrightarrow>
        heapList h (edgeHeadPtr (verticesPtr F k)) (fpF k) (esF k)
        \<and> dataPtr (verticesPtr F k) = Some (dpF k) \<and> vertexObjs h (dpF k) = Some (lsF k)"
    and al: "allocatedBelow h"
  shows "\<exists>h' G' fp dp. copyGraph h this fromGraph = Some h'
           \<and> copyInv h (G\<lparr>tableObj := copyTable (tableObj G) (tableObj F)\<rparr>) esF lsF this
                h' G' fp dp (max 1 (sizeObj G + 1))"
proof -
  have "copyInv h G esF lsF this h G (\<lambda>k. []) (\<lambda>k. 0) 1" using G al by (rule copyInv_start)
  from copyLoop_inv [OF ne F src al sz this]
  obtain h1 G1 fp dp where l: "copyLoop h this fromGraph (sizeObj G) 1 = Some h1"
    "copyInv h G esF lsF this h1 G1 fp dp (max 1 (sizeObj G + 1))" by auto
  let ?G' = "G1\<lparr>tableObj := copyTable (tableObj G1) (tableObj F)\<rparr>"
  let ?h' = "putGraph h1 this ?G'"
  from l(2) have g1: "graphObjs h1 this = Some G1" "tableObj G1 = tableObj G"
    and f1: "graphObjs h1 fromGraph = Some F"
    using ne F unfolding copyInv_def by simp_all
  have c: "copyGraph h this fromGraph = Some ?h'"
    using ne G l(1) g1(1) f1 by (simp add: copyGraph_def)
  have e: "edgeNodes ?h' = edgeNodes h1" "vertexObjs ?h' = vertexObjs h1"
    "nextAddr ?h' = nextAddr h1" by (simp_all add: putGraph_def)
  have hl: "\<And>p as es. heapList ?h' p as es = heapList h1 p as es"
    by (rule heapList_frame) (simp add: e)
  have "copyInv h (G\<lparr>tableObj := copyTable (tableObj G) (tableObj F)\<rparr>) esF lsF this
          ?h' ?G' fp dp (max 1 (sizeObj G + 1))"
    using l(2) unfolding copyInv_def hl e allocatedBelow_def
    by (simp add: putGraph_def g1(2))
  with c show ?thesis by blast
qed

lemma graphIs_frame:
  assumes g: "graphIs h a F fp es dp ls" and o: "graphObjs h' a = Some F"
    and e: "\<forall>i x. inBounds i \<and> x \<in> set (fp i) \<longrightarrow> edgeNodes h' x = edgeNodes h x"
    and v: "\<forall>i. 1 \<le> i \<and> i \<le> sizeObj F \<longrightarrow> vertexObjs h' (dp i) = vertexObjs h (dp i)"
  shows "graphIs h' a F fp es dp ls"
proof -
  have "\<And>i. inBounds i \<Longrightarrow>
          heapList h' (edgeHeadPtr (verticesPtr F i)) (fp i) (es i)
          = heapList h (edgeHeadPtr (verticesPtr F i)) (fp i) (es i)"
    using e by (intro heapList_frame) simp
  then have "ownsLists h' F fp es" using g by (simp add: graphIs_def ownsLists_def)
  moreover have "ownsLabels h' F dp ls" using g v by (simp add: graphIs_def ownsLabels_def)
  ultimately show ?thesis using g o by (simp add: graphIs_def)
qed

lemma graphIs_nodes_below:
  assumes "graphIs h a F fp es dp ls" and "allocatedBelow h" and "inBounds i" and "x \<in> set (fp i)"
  shows "x < nextAddr h"
proof -
  from assms(1,3) have "heapList h (edgeHeadPtr (verticesPtr F i)) (fp i) (es i)"
    by (simp add: graphIs_def ownsLists_def)
  from heapList_allocated [OF this assms(4)] assms(2) show ?thesis
    by (simp add: allocatedBelow_def)
qed

lemma graphIs_labels_below:
  assumes "graphIs h a F fp es dp ls" and "allocatedBelow h" and "1 \<le> i" and "i \<le> sizeObj F"
  shows "dp i < nextAddr h"
proof -
  from assms(1,3,4) have "vertexObjs h (dp i) \<noteq> None" by (simp add: graphIs_def ownsLabels_def)
  with assms(2) show ?thesis by (simp add: allocatedBelow_def)
qed

lemma graphIs_inBounds:
  assumes "graphIs h a F fp es dp ls" and "1 \<le> i" and "i \<le> sizeObj F"
  shows "inBounds i"
  using assms by (simp add: graphIs_def inBounds_def)

text \<open>
  \<open>copyGraph\<close> into an object whose \<^verbatim>\<open>size\<close> is already that of the source and whose slots
  outside \<open>1..size\<close> hold the lists \<open>esR\<close> at \<open>fpR\<close>, apart from the source's.
\<close>

lemma copyGraph_graphIs:
  assumes ne: "this \<noteq> fromGraph"
    and gF: "graphIs h fromGraph F fpF esF dpF lsF"
    and G: "graphObjs h this = Some G" and sz: "sizeObj G = sizeObj F"
    and rest: "\<forall>k. inBounds k \<and> \<not> (1 \<le> k \<and> k \<le> sizeObj F) \<longrightarrow>
                 heapList h (edgeHeadPtr (verticesPtr G k)) (fpR k) (esR k)"
    and rdis: "\<forall>k l. inBounds k \<and> inBounds l \<and> k \<noteq> l \<longrightarrow> set (fpR k) \<inter> set (fpR l) = {}"
    and rsep: "\<forall>k l. inBounds k \<and> inBounds l \<longrightarrow> set (fpR k) \<inter> set (fpF l) = {}"
    and al: "allocatedBelow h"
  shows "\<exists>h' G' fp' es' dp'.
           copyGraph h this fromGraph = Some h'
         \<and> graphIs h' fromGraph F fpF esF dpF lsF
         \<and> graphIs h' this G' fp' es' dp' lsF
         \<and> sizeObj G' = sizeObj F
         \<and> (\<forall>i. 1 \<le> i \<and> i \<le> sizeObj F \<longrightarrow> es' i = esF i)
         \<and> (\<forall>i. \<not> (1 \<le> i \<and> i \<le> sizeObj F) \<longrightarrow> es' i = esR i)
         \<and> (\<forall>r c. inBounds r \<and> inBounds c \<longrightarrow> tableObj G' r c = tableObj F r c)
         \<and> disjointFrom G' fp' dp' F fpF dpF
         \<and> allocatedBelow h'"
proof -
  let ?n = "sizeObj F" and ?M = "nextAddr h"
  from gF have F: "graphObjs h fromGraph = Some F" and nb: "?n < MAX_VERTICES"
    and oF: "ownsLists h F fpF esF" and lF: "ownsLabels h F dpF lsF"
    by (simp_all add: graphIs_def)
  have inb: "\<And>k. 1 \<le> k \<Longrightarrow> k \<le> ?n \<Longrightarrow> inBounds k" using nb by (simp add: inBounds_def)
  have src: "\<forall>k. 1 \<le> k \<and> k \<le> sizeObj G \<longrightarrow>
        heapList h (edgeHeadPtr (verticesPtr F k)) (fpF k) (esF k)
        \<and> dataPtr (verticesPtr F k) = Some (dpF k) \<and> vertexObjs h (dpF k) = Some (lsF k)"
    using oF lF inb unfolding sz ownsLists_def ownsLabels_def by simp
  from copyGraph_result [OF ne F G _ src al] nb sz
  obtain h' G' fp dp where c: "copyGraph h this fromGraph = Some h'"
    and inv: "copyInv h (G\<lparr>tableObj := copyTable (tableObj G) (tableObj F)\<rparr>) esF lsF this
                h' G' fp dp (max 1 (?n + 1))" by auto
  let ?in = "\<lambda>k. 1 \<le> k \<and> k \<le> ?n"
  have mx: "\<And>k. (1 \<le> k \<and> k < max 1 (?n + 1)) = ?in k" by auto
  from inv have G': "graphObjs h' this = Some G'"
    and sz': "sizeObj G' = sizeObj G"
    and tb': "tableObj G' = copyTable (tableObj G) (tableObj F)"
    and out: "\<forall>k. \<not> ?in k \<longrightarrow> verticesPtr G' k = verticesPtr G k"
    and dn: "\<forall>k. ?in k \<longrightarrow>
           heapList h' (edgeHeadPtr (verticesPtr G' k)) (fp k) (esF k)
         \<and> (\<forall>a \<in> set (fp k). ?M \<le> a \<and> a < nextAddr h')
         \<and> dataPtr (verticesPtr G' k) = Some (dp k)
         \<and> ?M \<le> dp k \<and> dp k < nextAddr h' \<and> vertexObjs h' (dp k) = Some (lsF k)"
    and dis: "\<forall>k l. ?in k \<and> ?in l \<and> k \<noteq> l \<longrightarrow> set (fp k) \<inter> set (fp l) = {} \<and> dp k \<noteq> dp l"
    and al': "allocatedBelow h'"
    and old: "\<forall>a. a < ?M \<longrightarrow> edgeNodes h' a = edgeNodes h a \<and> vertexObjs h' a = vertexObjs h a"
    and oth: "\<forall>obj. obj \<noteq> this \<longrightarrow> graphObjs h' obj = graphObjs h obj"
    unfolding copyInv_def mx by simp_all
  have belowF: "\<And>i x. inBounds i \<Longrightarrow> x \<in> set (fpF i) \<Longrightarrow> x < ?M"
    using gF al by (rule graphIs_nodes_below)
  have belowL: "\<And>i. ?in i \<Longrightarrow> dpF i < ?M"
    using graphIs_labels_below [OF gF al] by auto
  have gF': "graphIs h' fromGraph F fpF esF dpF lsF"
    using gF _ _ _
  proof (rule graphIs_frame)
    show "graphObjs h' fromGraph = Some F" using oth ne F by simp
    show "\<forall>i x. inBounds i \<and> x \<in> set (fpF i) \<longrightarrow> edgeNodes h' x = edgeNodes h x"
      using belowF old by auto
    show "\<forall>i. 1 \<le> i \<and> i \<le> ?n \<longrightarrow> vertexObjs h' (dpF i) = vertexObjs h (dpF i)"
      using belowL old by auto
  qed
  define fp' where "fp' = (\<lambda>k. if ?in k then fp k else fpR k)"
  define es' where "es' = (\<lambda>k. if ?in k then esF k else esR k)"
  have inT: "\<And>k. ?in k \<Longrightarrow> fp' k = fp k \<and> es' k = esF k"
    unfolding fp'_def es'_def by (simp only: if_True simp_thms)
  have inF: "\<And>k. \<not> ?in k \<Longrightarrow> fp' k = fpR k \<and> es' k = esR k"
    unfolding fp'_def es'_def by (simp only: if_False simp_thms)
  have belowR: "\<And>k x. inBounds k \<Longrightarrow> \<not> ?in k \<Longrightarrow> x \<in> set (fpR k) \<Longrightarrow> x < ?M"
  proof -
    fix k x assume k: "inBounds k" "\<not> ?in k" "x \<in> set (fpR k)"
    with rest have "heapList h (edgeHeadPtr (verticesPtr G k)) (fpR k) (esR k)" by simp
    from heapList_allocated [OF this k(3)] al show "x < ?M" by (simp add: allocatedBelow_def)
  qed
  have lists: "\<forall>k. inBounds k \<longrightarrow> heapList h' (edgeHeadPtr (verticesPtr G' k)) (fp' k) (es' k)"
  proof (intro allI impI)
    fix k assume k: "inBounds k"
    show "heapList h' (edgeHeadPtr (verticesPtr G' k)) (fp' k) (es' k)"
    proof (cases "?in k")
      case True
      with dn inT [OF True] show ?thesis by simp
    next
      case False
      with rest k have l: "heapList h (edgeHeadPtr (verticesPtr G k)) (fpR k) (esR k)" by blast
      have "\<forall>a \<in> set (fpR k). edgeNodes h' a = edgeNodes h a"
        using belowR [OF k False] old by auto
      from heapList_frame [OF this] l
      have "heapList h' (edgeHeadPtr (verticesPtr G k)) (fpR k) (esR k)" by simp
      moreover from out False have "verticesPtr G' k = verticesPtr G k" by blast
      ultimately show ?thesis using inF [OF False] by simp
    qed
  qed
  have pair: "\<forall>k l. inBounds k \<and> inBounds l \<and> k \<noteq> l \<longrightarrow> set (fp' k) \<inter> set (fp' l) = {}"
  proof (intro allI impI)
    fix k l assume kl: "inBounds k \<and> inBounds l \<and> k \<noteq> l"
    have new_old: "\<And>p q. ?in p \<Longrightarrow> inBounds q \<Longrightarrow> \<not> ?in q \<Longrightarrow> set (fp p) \<inter> set (fpR q) = {}"
    proof -
      fix p q assume pq: "?in p" "inBounds q" "\<not> ?in q"
      from dn pq(1) have "\<forall>a \<in> set (fp p). ?M \<le> a" by blast
      moreover have "\<forall>a \<in> set (fpR q). a < ?M" using belowR [OF pq(2) pq(3)] by auto
      ultimately show "set (fp p) \<inter> set (fpR q) = {}" by fastforce
    qed
    show "set (fp' k) \<inter> set (fp' l) = {}"
    proof (cases "?in k")
      case ik: True
      show ?thesis
      proof (cases "?in l")
        case True
        with ik kl dis have "set (fp k) \<inter> set (fp l) = {}" by blast
        with inT [OF ik] inT [OF True] show ?thesis by simp
      next
        case False
        from new_old [OF ik _ False] kl have "set (fp k) \<inter> set (fpR l) = {}" by blast
        with inT [OF ik] inF [OF False] show ?thesis by simp
      qed
    next
      case nk: False
      show ?thesis
      proof (cases "?in l")
        case True
        from new_old [OF True _ nk] kl have "set (fp l) \<inter> set (fpR k) = {}" by blast
        with inT [OF True] inF [OF nk] show ?thesis by (simp add: Int_commute)
      next
        case False
        from rdis kl have "set (fpR k) \<inter> set (fpR l) = {}" by blast
        with inF [OF nk] inF [OF False] show ?thesis by simp
      qed
    qed
  qed
  have oG: "ownsLists h' G' fp' es'" unfolding ownsLists_def using lists pair by blast
  have lG: "ownsLabels h' G' dp lsF" unfolding ownsLabels_def sz' sz using dn dis by blast
  have gG: "graphIs h' this G' fp' es' dp lsF"
    unfolding graphIs_def using G' sz' sz nb oG lG by simp
  have sep: "disjointFrom G' fp' dp F fpF dpF"
    unfolding disjointFrom_def
  proof (intro conjI allI impI)
    fix i j assume ij: "inBounds i \<and> inBounds j"
    show "set (fp' i) \<inter> set (fpF j) = {}"
    proof (cases "?in i")
      case True
      with dn have "\<forall>a \<in> set (fp i). ?M \<le> a" by blast
      moreover have "\<forall>a \<in> set (fpF j). a < ?M" using belowF ij by auto
      ultimately have "set (fp i) \<inter> set (fpF j) = {}" by fastforce
      with inT [OF True] show ?thesis by simp
    next
      case False
      from rsep ij have "set (fpR i) \<inter> set (fpF j) = {}" by blast
      with inF [OF False] show ?thesis by simp
    qed
  next
    fix i j assume ij: "1 \<le> i \<and> i \<le> sizeObj G' \<and> 1 \<le> j \<and> j \<le> ?n"
    with dn sz' sz have "?M \<le> dp i" by simp
    moreover from ij have "dpF j < ?M" using belowL by auto
    ultimately show "dp i \<noteq> dpF j" by simp
  qed
  have tab: "\<forall>r c. inBounds r \<and> inBounds c \<longrightarrow> tableObj G' r c = tableObj F r c"
    unfolding tb' by (simp add: copyTable_def)
  have e1: "\<forall>i. ?in i \<longrightarrow> es' i = esF i" using inT by blast
  have e2: "\<forall>i. \<not> ?in i \<longrightarrow> es' i = esR i" using inF by blast
  have s': "sizeObj G' = ?n" using sz' sz by simp
  from c gF' gG s' e1 e2 tab sep al' show ?thesis by blast
qed

section \<open>operator= and the copy constructor\<close>

lemma clearGraphStore_result:
  assumes gG: "graphIs h this G fpG esG dpG lsG"
  shows "clearGraphStore h this = Some (clearedStore h this G fpG dpG 1 (sizeObj G))"
proof -
  let ?n = "sizeObj G"
  from gG have G: "graphObjs h this = Some G" and nb: "?n < MAX_VERTICES"
    and oG: "ownsLists h G fpG esG" and lG: "ownsLabels h G dpG lsG"
    by (simp_all add: graphIs_def)
  show ?thesis
  proof (cases "?n > 0")
    case False
    then have "clearedStore h this G fpG dpG 1 ?n = h"
      using G by (intro clearedStore_empty_range) simp_all
    with False G show ?thesis by (simp add: clearGraphStore_def)
  next
    case True
    have inb: "\<And>k. 1 \<le> k \<Longrightarrow> k \<le> ?n \<Longrightarrow> inBounds k" using nb by (simp add: inBounds_def)
    have 1: "\<forall>k. 1 \<le> k \<and> k \<le> ?n \<longrightarrow> heapList h (edgeHeadPtr (verticesPtr G k)) (fpG k) (esG k)"
      using oG inb unfolding ownsLists_def by blast
    have 2: "\<forall>k l. 1 \<le> k \<and> k \<le> ?n \<and> 1 \<le> l \<and> l \<le> ?n \<and> k \<noteq> l \<longrightarrow>
               set (fpG k) \<inter> set (fpG l) = {}"
      using oG inb unfolding ownsLists_def by blast
    have 3: "\<forall>k. 1 \<le> k \<and> k \<le> ?n \<longrightarrow>
        dataPtr (verticesPtr G k) = Some (dpG k) \<and> vertexObjs h (dpG k) \<noteq> None"
      using lG unfolding ownsLabels_def by simp
    have 4: "\<forall>k l. 1 \<le> k \<and> k \<le> ?n \<and> 1 \<le> l \<and> l \<le> ?n \<and> k \<noteq> l \<longrightarrow> dpG k \<noteq> dpG l"
      using lG unfolding ownsLabels_def by blast
    have "clearLoopStore h this ?n 1 = Some (clearedStore h this G fpG dpG 1 ?n)"
      using _ nb G 1 2 3 4 by (rule clearLoopStore_result) simp
    with True G show ?thesis by (simp add: clearGraphStore_def)
  qed
qed

text \<open>Clearing one graph leaves a graph that shares nothing with it as it was.\<close>

lemma clearedStore_other:
  assumes ne: "this \<noteq> fromGraph"
    and gF: "graphIs h fromGraph F fpF esF dpF lsF"
    and gG: "graphIs h this G fpG esG dpG lsG"
    and sep: "disjointFrom G fpG dpG F fpF dpF"
  shows "graphIs (clearedStore h this G fpG dpG 1 (sizeObj G)) fromGraph F fpF esF dpF lsF"
  using gF
proof (rule graphIs_frame)
  let ?h1 = "clearedStore h this G fpG dpG 1 (sizeObj G)"
  from gG have nb: "sizeObj G < MAX_VERTICES" by (simp add: graphIs_def)
  have inb: "\<And>k. 1 \<le> k \<Longrightarrow> k \<le> sizeObj G \<Longrightarrow> inBounds k" using nb by (simp add: inBounds_def)
  show "graphObjs ?h1 fromGraph = Some F"
    using gF ne by (simp add: clearedStore_def graphIs_def)
  show "\<forall>i x. inBounds i \<and> x \<in> set (fpF i) \<longrightarrow> edgeNodes ?h1 x = edgeNodes h x"
  proof (intro allI impI)
    fix i x assume ix: "inBounds i \<and> x \<in> set (fpF i)"
    have "\<not> (\<exists>k. 1 \<le> k \<and> k \<le> sizeObj G \<and> x \<in> set (fpG k))"
    proof
      assume "\<exists>k. 1 \<le> k \<and> k \<le> sizeObj G \<and> x \<in> set (fpG k)"
      then obtain k where k: "1 \<le> k" "k \<le> sizeObj G" "x \<in> set (fpG k)" by blast
      from sep inb [OF k(1,2)] ix have "set (fpG k) \<inter> set (fpF i) = {}"
        unfolding disjointFrom_def by blast
      with k(3) ix show False by blast
    qed
    then show "edgeNodes ?h1 x = edgeNodes h x" by (auto simp: clearedStore_def)
  qed
  show "\<forall>i. 1 \<le> i \<and> i \<le> sizeObj F \<longrightarrow> vertexObjs ?h1 (dpF i) = vertexObjs h (dpF i)"
  proof (intro allI impI)
    fix i assume i: "1 \<le> i \<and> i \<le> sizeObj F"
    have "\<not> (\<exists>k. 1 \<le> k \<and> k \<le> sizeObj G \<and> dpF i = dpG k)"
      using sep i unfolding disjointFrom_def by metis
    then show "vertexObjs ?h1 (dpF i) = vertexObjs h (dpF i)" by (auto simp: clearedStore_def)
  qed
qed

lemma operatorAssign_result:
  assumes ne: "this \<noteq> fromGraph"
    and gF: "graphIs h fromGraph F fpF esF dpF lsF"
    and gG: "graphIs h this G fpG esG dpG lsG"
    and sep: "disjointFrom G fpG dpG F fpF dpF"
    and al: "allocatedBelow h"
  shows "\<exists>h' G' fp' es' dp'.
           operatorAssign h this fromGraph = Some h'
         \<and> graphIs h' fromGraph F fpF esF dpF lsF
         \<and> graphIs h' this G' fp' es' dp' lsF
         \<and> sizeObj G' = sizeObj F
         \<and> (\<forall>i. 1 \<le> i \<and> i \<le> sizeObj F \<longrightarrow> es' i = esF i)
         \<and> (\<forall>r c. inBounds r \<and> inBounds c \<longrightarrow> tableObj G' r c = tableObj F r c)
         \<and> disjointFrom G' fp' dp' F fpF dpF
         \<and> allocatedBelow h'"
proof -
  let ?n = "sizeObj G"
  let ?cl = "\<lambda>k. 1 \<le> k \<and> k \<le> ?n"
  let ?h1 = "clearedStore h this G fpG dpG 1 ?n"
  let ?G1 = "G\<lparr>verticesPtr := (\<lambda>k. if ?cl k then \<lparr>edgeHeadPtr = None, dataPtr = None\<rparr>
                                    else verticesPtr G k)\<rparr>"
  let ?G2 = "?G1\<lparr>sizeObj := sizeObj F\<rparr>"
  let ?h2 = "putGraph ?h1 this ?G2"
  from gG have G: "graphObjs h this = Some G" and nb: "?n < MAX_VERTICES"
    and oG: "ownsLists h G fpG esG" by (simp_all add: graphIs_def)
  have inb: "\<And>k. ?cl k \<Longrightarrow> inBounds k" using nb by (simp add: inBounds_def)
  have c1: "clearGraphStore h this = Some ?h1" using gG by (rule clearGraphStore_result)
  have g1: "graphObjs ?h1 this = Some ?G1" by (simp add: clearedStore_def)
  have gF1: "graphIs ?h1 fromGraph F fpF esF dpF lsF"
    using ne gF gG sep by (rule clearedStore_other)
  then have f1: "graphObjs ?h1 fromGraph = Some F" by (simp add: graphIs_def)
  have op: "operatorAssign h this fromGraph = copyGraph ?h2 this fromGraph"
    using ne c1 g1 f1 by (simp add: operatorAssign_def)
  have gF2: "graphIs ?h2 fromGraph F fpF esF dpF lsF"
    using gF1 by (rule graphIs_frame) (use f1 ne in \<open>simp_all add: putGraph_def\<close>)
  have g2: "graphObjs ?h2 this = Some ?G2" by (simp add: putGraph_def)
  have e2: "\<And>a. edgeNodes ?h2 a
              = (if \<exists>k. ?cl k \<and> a \<in> set (fpG k) then None else edgeNodes h a)"
    by (simp add: putGraph_def clearedStore_def)
  have v2: "\<And>a. vertexObjs ?h2 a = (if \<exists>k. ?cl k \<and> a = dpG k then None else vertexObjs h a)"
    by (simp add: putGraph_def clearedStore_def)
  have n2: "nextAddr ?h2 = nextAddr h" by (simp add: putGraph_def clearedStore_def)
  define fpR where "fpR = (\<lambda>k. if ?cl k then [] else fpG k)"
  define esR where "esR = (\<lambda>k. if ?cl k then [] else esG k)"
  have rT: "\<And>k. ?cl k \<Longrightarrow> fpR k = [] \<and> esR k = []"
    unfolding fpR_def esR_def by (simp only: if_True simp_thms)
  have rF: "\<And>k. \<not> ?cl k \<Longrightarrow> fpR k = fpG k \<and> esR k = esG k"
    unfolding fpR_def esR_def by (simp only: if_False simp_thms)
  have sub: "\<And>k. set (fpR k) \<subseteq> set (fpG k)" unfolding fpR_def by simp
  have rest: "\<forall>k. inBounds k \<and> \<not> (1 \<le> k \<and> k \<le> sizeObj F) \<longrightarrow>
                 heapList ?h2 (edgeHeadPtr (verticesPtr ?G2 k)) (fpR k) (esR k)"
  proof (intro allI impI)
    fix k assume k: "inBounds k \<and> \<not> (1 \<le> k \<and> k \<le> sizeObj F)"
    show "heapList ?h2 (edgeHeadPtr (verticesPtr ?G2 k)) (fpR k) (esR k)"
    proof (cases "?cl k")
      case True
      then have "verticesPtr ?G2 k = \<lparr>edgeHeadPtr = None, dataPtr = None\<rparr>" by simp
      with rT [OF True] show ?thesis by simp
    next
      case False
      then have vk: "verticesPtr ?G2 k = verticesPtr G k" by auto
      from oG k have l: "heapList h (edgeHeadPtr (verticesPtr G k)) (fpG k) (esG k)"
        by (simp add: ownsLists_def)
      have "\<forall>a \<in> set (fpG k). edgeNodes ?h2 a = edgeNodes h a"
      proof
        fix a assume a: "a \<in> set (fpG k)"
        have "\<not> (\<exists>j. ?cl j \<and> a \<in> set (fpG j))"
        proof
          assume "\<exists>j. ?cl j \<and> a \<in> set (fpG j)"
          then obtain j where j: "?cl j" "a \<in> set (fpG j)" by blast
          with False have "j \<noteq> k" by auto
          with oG inb [OF j(1)] k have "set (fpG j) \<inter> set (fpG k) = {}"
            unfolding ownsLists_def by blast
          with a j(2) show False by blast
        qed
        then show "edgeNodes ?h2 a = edgeNodes h a" unfolding e2 by auto
      qed
      from heapList_frame [OF this] l
      have "heapList ?h2 (edgeHeadPtr (verticesPtr G k)) (fpG k) (esG k)" by simp
      with vk rF [OF False] show ?thesis by simp
    qed
  qed
  have rdis: "\<forall>k l. inBounds k \<and> inBounds l \<and> k \<noteq> l \<longrightarrow> set (fpR k) \<inter> set (fpR l) = {}"
  proof (intro allI impI)
    fix k l assume kl: "inBounds k \<and> inBounds l \<and> k \<noteq> l"
    with oG have "set (fpG k) \<inter> set (fpG l) = {}" unfolding ownsLists_def by blast
    with sub [of k] sub [of l] show "set (fpR k) \<inter> set (fpR l) = {}" by blast
  qed
  have rsep: "\<forall>k l. inBounds k \<and> inBounds l \<longrightarrow> set (fpR k) \<inter> set (fpF l) = {}"
  proof (intro allI impI)
    fix k l assume kl: "inBounds k \<and> inBounds l"
    with sep have "set (fpG k) \<inter> set (fpF l) = {}" unfolding disjointFrom_def by blast
    with sub [of k] show "set (fpR k) \<inter> set (fpF l) = {}" by blast
  qed
  have al2: "allocatedBelow ?h2"
    using al unfolding allocatedBelow_def e2 v2 n2 by (auto split: if_splits)
  have sz2: "sizeObj ?G2 = sizeObj F" by simp
  from copyGraph_graphIs [OF ne gF2 g2 sz2 rest rdis rsep al2]
  obtain h' G' fp' es' dp' where r: "copyGraph ?h2 this fromGraph = Some h'"
    "graphIs h' fromGraph F fpF esF dpF lsF" "graphIs h' this G' fp' es' dp' lsF"
    "sizeObj G' = sizeObj F" "\<forall>i. 1 \<le> i \<and> i \<le> sizeObj F \<longrightarrow> es' i = esF i"
    "\<forall>r c. inBounds r \<and> inBounds c \<longrightarrow> tableObj G' r c = tableObj F r c"
    "disjointFrom G' fp' dp' F fpF dpF" "allocatedBelow h'" by blast
  with op show ?thesis by (intro exI [of _ h'] exI [of _ G'] exI [of _ fp'] exI [of _ es']
      exI [of _ dp']) simp
qed

lemma copyConstructor_result:
  assumes ne: "this \<noteq> graph"
    and gF: "graphIs h graph F fpF esF dpF lsF"
    and G: "graphObjs h this = Some G"
    and al: "allocatedBelow h"
  shows "\<exists>h' G' fp' es' dp'.
           copyConstructor h this graph = Some h'
         \<and> graphIs h' graph F fpF esF dpF lsF
         \<and> graphIs h' this G' fp' es' dp' lsF
         \<and> sizeObj G' = sizeObj F
         \<and> (\<forall>i. 1 \<le> i \<and> i \<le> sizeObj F \<longrightarrow> es' i = esF i)
         \<and> (\<forall>i. \<not> (1 \<le> i \<and> i \<le> sizeObj F) \<longrightarrow> es' i = [])
         \<and> (\<forall>r c. inBounds r \<and> inBounds c \<longrightarrow> tableObj G' r c = tableObj F r c)
         \<and> disjointFrom G' fp' dp' F fpF dpF
         \<and> allocatedBelow h'"
proof -
  let ?G2 = "G\<lparr>verticesPtr := (\<lambda>i. if inBounds i then \<lparr>edgeHeadPtr = None, dataPtr = None\<rparr>
                                    else verticesPtr G i),
               sizeObj := sizeObj F\<rparr>"
  let ?h2 = "putGraph h this ?G2"
  from gF have F: "graphObjs h graph = Some F" by (simp add: graphIs_def)
  have op: "copyConstructor h this graph = copyGraph ?h2 this graph"
    using G F by (simp add: copyConstructor_def)
  have gF2: "graphIs ?h2 graph F fpF esF dpF lsF"
    using gF by (rule graphIs_frame) (use F ne in \<open>simp_all add: putGraph_def\<close>)
  have g2: "graphObjs ?h2 this = Some ?G2" by (simp add: putGraph_def)
  have rest: "\<forall>k. inBounds k \<and> \<not> (1 \<le> k \<and> k \<le> sizeObj F) \<longrightarrow>
                 heapList ?h2 (edgeHeadPtr (verticesPtr ?G2 k)) ((\<lambda>k. []) k) ((\<lambda>k. []) k)"
    by simp
  have al2: "allocatedBelow ?h2" using al by (simp add: allocatedBelow_def putGraph_def)
  have sz2: "sizeObj ?G2 = sizeObj F" by simp
  from copyGraph_graphIs [OF ne gF2 g2 sz2 rest _ _ al2]
  obtain h' G' fp' es' dp' where r: "copyGraph ?h2 this graph = Some h'"
    "graphIs h' graph F fpF esF dpF lsF" "graphIs h' this G' fp' es' dp' lsF"
    "sizeObj G' = sizeObj F" "\<forall>i. 1 \<le> i \<and> i \<le> sizeObj F \<longrightarrow> es' i = esF i"
    "\<forall>i. \<not> (1 \<le> i \<and> i \<le> sizeObj F) \<longrightarrow> es' i = []"
    "\<forall>r c. inBounds r \<and> inBounds c \<longrightarrow> tableObj G' r c = tableObj F r c"
    "disjointFrom G' fp' dp' F fpF dpF" "allocatedBelow h'" by auto
  with op show ?thesis by (intro exI [of _ h'] exI [of _ G'] exI [of _ fp'] exI [of _ es']
      exI [of _ dp']) simp
qed

section \<open>insertEdge and removeEdge on the store\<close>

lemma heapList_cons:
  "heapList h (Some a) as es \<Longrightarrow>
   \<exists>as' e es' n. as = a # as' \<and> es = e # es' \<and> edgeNodes h a = Some n
      \<and> adjVertex n = adjVertex e \<and> weight n = weight e \<and> heapList h (nextEdge n) as' es'"
  by (cases as; cases es) (auto split: option.splits)

lemma heapList_null: "heapList h None as es \<Longrightarrow> as = [] \<and> es = []"
  by (cases as; cases es) auto

lemma insertWalkStore_result:
  "heapList h (Some current) as es \<Longrightarrow>
   edgeNodes h newNode = Some \<lparr>adjVertex = d, weight = w, nextEdge = None\<rparr> \<Longrightarrow>
   newNode \<notin> set as \<Longrightarrow>
   \<exists>h' as'. insertWalkStore h current newNode d w = Some (True, h')
      \<and> heapList h' (Some current) as' (insertedList d w es)
      \<and> set as' \<subseteq> insert newNode (set as)
      \<and> (\<forall>a. a \<notin> set as \<and> a \<noteq> newNode \<longrightarrow> edgeNodes h' a = edgeNodes h a)
      \<and> (\<forall>a. edgeNodes h' a \<noteq> None \<longrightarrow> edgeNodes h a \<noteq> None)
      \<and> vertexObjs h' = vertexObjs h \<and> graphObjs h' = graphObjs h \<and> nextAddr h' = nextAddr h"
proof (induction as arbitrary: current es)
  case Nil
  then show ?case by (cases es) auto
next
  case (Cons a as1)
  from heapList_cons [OF Cons.prems(1)] obtain e es1 c where
    c: "a = current" "es = e # es1" "edgeNodes h current = Some c"
    "adjVertex c = adjVertex e" "weight c = weight e" "heapList h (nextEdge c) as1 es1" by auto
  from Cons.prems(1) have "distinct (a # as1)" by (rule heapList_distinct)
  with c(1) have cur: "current \<notin> set as1" by simp
  from Cons.prems(3) c(1) have nn: "newNode \<noteq> current" "newNode \<notin> set as1" by auto
  show ?case
  proof (cases "nextEdge c")
    case None
    with c(6) have e1: "as1 = []" "es1 = []" by (auto dest: heapList_null)
    let ?h' = "h\<lparr>edgeNodes := (edgeNodes h)(current \<mapsto> c\<lparr>nextEdge := Some newNode\<rparr>)\<rparr>"
    have w: "insertWalkStore h current newNode d w = Some (True, ?h')"
      using c(3) None by (subst insertWalkStore.simps) simp
    have "heapList ?h' (Some current) [current, newNode] [e, \<lparr>adjVertex = d, weight = w\<rparr>]"
      using c(4,5) Cons.prems(2) nn(1) by simp
    then have l: "heapList ?h' (Some current) [current, newNode] (insertedList d w es)"
      using c(2) e1 by (simp add: insertedList_def)
    have s: "set [current, newNode] \<subseteq> insert newNode (set (a # as1))" using c(1) by auto
    have f: "\<forall>x. x \<notin> set (a # as1) \<and> x \<noteq> newNode \<longrightarrow> edgeNodes ?h' x = edgeNodes h x"
      using c(1) by simp
    have k: "\<forall>x. edgeNodes ?h' x \<noteq> None \<longrightarrow> edgeNodes h x \<noteq> None" using c(3) by auto
    from w l s f k show ?thesis
      by (intro exI [of _ ?h'] exI [of _ "[current, newNode]"]) simp
  next
    case (Some nx)
    with c(6) have "heapList h (Some nx) as1 es1" by simp
    from heapList_cons [OF this] obtain as2 e2 es2 where n2: "as1 = nx # as2" "es1 = e2 # es2"
      by auto
    show ?thesis
    proof (cases "adjVertex c = d")
      case True
      let ?h' = "h\<lparr>edgeNodes := ((edgeNodes h)(current \<mapsto> c\<lparr>weight := w\<rparr>))(newNode := None)\<rparr>"
      have w: "insertWalkStore h current newNode d w = Some (True, ?h')"
        using c(3) Some True by (subst insertWalkStore.simps) simp
      have "\<forall>x \<in> set as1. edgeNodes ?h' x = edgeNodes h x" using cur nn(2) by auto
      from heapList_frame [OF this] c(6)
      have r: "heapList ?h' (nextEdge c) as1 es1" by simp
      have "heapList ?h' (Some current) (current # as1) (e\<lparr>weight := w\<rparr> # es1)"
        using r c(4) nn(1) by simp
      moreover have "insertedList d w es = e\<lparr>weight := w\<rparr> # es1"
        using c(2,4) n2 True by (simp add: insertedList_def)
      ultimately have l: "heapList ?h' (Some current) (a # as1) (insertedList d w es)"
        using c(1) by simp
      have f: "\<forall>x. x \<notin> set (a # as1) \<and> x \<noteq> newNode \<longrightarrow> edgeNodes ?h' x = edgeNodes h x"
        using c(1) by simp
      have k: "\<forall>x. edgeNodes ?h' x \<noteq> None \<longrightarrow> edgeNodes h x \<noteq> None"
        using c(3) by (auto split: if_splits)
      from w l f k show ?thesis
        by (intro exI [of _ ?h'] exI [of _ "a # as1"]) auto
    next
      case False
      have w: "insertWalkStore h current newNode d w = insertWalkStore h nx newNode d w"
        using c(3) Some False by (subst insertWalkStore.simps) simp
      from c(6) Some have l1: "heapList h (Some nx) as1 es1" by simp
      from Cons.IH [OF l1 Cons.prems(2) nn(2)]
      obtain h' as' where r: "insertWalkStore h nx newNode d w = Some (True, h')"
        "heapList h' (Some nx) as' (insertedList d w es1)"
        "set as' \<subseteq> insert newNode (set as1)"
        "\<forall>x. x \<notin> set as1 \<and> x \<noteq> newNode \<longrightarrow> edgeNodes h' x = edgeNodes h x"
        "\<forall>x. edgeNodes h' x \<noteq> None \<longrightarrow> edgeNodes h x \<noteq> None"
        "vertexObjs h' = vertexObjs h" "graphObjs h' = graphObjs h" "nextAddr h' = nextAddr h"
        by blast
      have ch: "edgeNodes h' current = Some c" using r(4) cur nn(1) c(3) by simp
      have "insertedList d w es = e # insertedList d w es1"
        using c(2,4) n2 False by (simp add: insertedList_def)
      moreover have "heapList h' (Some current) (current # as') (e # insertedList d w es1)"
        using ch c(4,5) Some r(2) by simp
      ultimately have l: "heapList h' (Some current) (current # as') (insertedList d w es)"
        by simp
      have s: "set (current # as') \<subseteq> insert newNode (set (a # as1))" using r(3) c(1) by auto
      have f: "\<forall>x. x \<notin> set (a # as1) \<and> x \<noteq> newNode \<longrightarrow> edgeNodes h' x = edgeNodes h x"
        using r(4) by simp
      from w r(1) l s f r(5,6,7,8) show ?thesis
        by (intro exI [of _ h'] exI [of _ "current # as'"]) simp
    qed
  qed
qed

lemma removeWalk_prefix:
  "removeWalk d prev es = map_option ((@) prev) (removeWalk d [] es)"
proof (induction es arbitrary: prev)
  case Nil
  then show ?case by simp
next
  case (Cons e es)
  show ?case
  proof (cases "adjVertex e = d")
    case True
    then show ?thesis by simp
  next
    case False
    have "removeWalk d prev (e # es) = removeWalk d (prev @ [e]) es" using False by simp
    also have "\<dots> = map_option ((@) (prev @ [e])) (removeWalk d [] es)" by (rule Cons.IH)
    also have "\<dots> = map_option ((@) prev) (map_option ((@) [e]) (removeWalk d [] es))"
      by (cases "removeWalk d [] es") simp_all
    also have "map_option ((@) [e]) (removeWalk d [] es) = removeWalk d [e] es"
      by (rule Cons.IH [symmetric])
    also have "removeWalk d [e] es = removeWalk d [] (e # es)" using False by simp
    finally show ?thesis .
  qed
qed

lemma walkedList_step:
  "adjVertex e \<noteq> d \<Longrightarrow> walkedList d (e # es) = e # walkedList d es"
  using removeWalk_prefix [of d "[e]" es]
  by (simp add: walkedList_def split: option.splits)

lemma walkedList_hit: "adjVertex e = d \<Longrightarrow> walkedList d (e # es) = es"
  by (simp add: walkedList_def)

lemma removedList_walked:
  "removedList d es = walkedList d es"
  by (cases es) (simp_all add: removedList_def walkedList_def)

lemma removeWalkStore_result:
  "edgeNodes h p = Some pn \<Longrightarrow> heapList h (nextEdge pn) as es \<Longrightarrow> p \<notin> set as \<Longrightarrow>
   \<exists>b h' as' pn'. removeWalkStore h (Some p) (nextEdge pn) d = Some (b, h')
      \<and> edgeNodes h' p = Some pn' \<and> adjVertex pn' = adjVertex pn \<and> weight pn' = weight pn
      \<and> heapList h' (nextEdge pn') as' (walkedList d es)
      \<and> set as' \<subseteq> set as
      \<and> (\<forall>a. a \<notin> set as \<and> a \<noteq> p \<longrightarrow> edgeNodes h' a = edgeNodes h a)
      \<and> (\<forall>a. edgeNodes h' a \<noteq> None \<longrightarrow> edgeNodes h a \<noteq> None)
      \<and> vertexObjs h' = vertexObjs h \<and> graphObjs h' = graphObjs h \<and> nextAddr h' = nextAddr h"
proof (induction as arbitrary: p pn es)
  case Nil
  from heapList_length [OF Nil.prems(2)] have es: "es = []" by simp
  with Nil.prems(2) have nx: "nextEdge pn = None" by simp
  have "removeWalkStore h (Some p) None d = Some (False, h)"
    by (subst removeWalkStore.simps) simp
  with Nil.prems(1) Nil.prems(2) nx es show ?case
    by (intro exI [of _ False] exI [of _ h] exI [of _ "[]"] exI [of _ pn])
       (simp add: walkedList_def)
next
  case (Cons c as1)
  from Cons.prems(2) obtain e es1 where es: "es = e # es1" by (cases es) auto
  with Cons.prems(2) obtain cn where cn: "nextEdge pn = Some c" "edgeNodes h c = Some cn"
    "adjVertex cn = adjVertex e" "weight cn = weight e" "heapList h (nextEdge cn) as1 es1"
    by (auto split: option.splits)
  from Cons.prems(2) have "distinct (c # as1)" by (rule heapList_distinct)
  then have c1: "c \<notin> set as1" by simp
  from Cons.prems(3) have pc: "p \<noteq> c" "p \<notin> set as1" by auto
  show ?case
  proof (cases "adjVertex cn = d")
    case True
    let ?h' = "h\<lparr>edgeNodes := ((edgeNodes h)(p \<mapsto> pn\<lparr>nextEdge := nextEdge cn\<rparr>))(c := None)\<rparr>"
    have w: "removeWalkStore h (Some p) (nextEdge pn) d = Some (True, ?h')"
      using cn(1,2) True Cons.prems(1) by (subst removeWalkStore.simps) simp
    have "\<forall>x \<in> set as1. edgeNodes ?h' x = edgeNodes h x" using c1 pc(2) by auto
    from heapList_frame [OF this] cn(5) have l: "heapList ?h' (nextEdge cn) as1 es1" by simp
    have wl: "walkedList d es = es1" using es cn(3) True by (simp add: walkedList_hit)
    have pe: "edgeNodes ?h' p = Some (pn\<lparr>nextEdge := nextEdge cn\<rparr>)" using pc(1) by simp
    have k: "\<forall>x. edgeNodes ?h' x \<noteq> None \<longrightarrow> edgeNodes h x \<noteq> None"
      using Cons.prems(1) by (auto split: if_splits)
    from w pe l wl k show ?thesis
      by (intro exI [of _ True] exI [of _ ?h'] exI [of _ as1]
          exI [of _ "pn\<lparr>nextEdge := nextEdge cn\<rparr>"]) auto
  next
    case False
    have w: "removeWalkStore h (Some p) (nextEdge pn) d
             = removeWalkStore h (Some c) (nextEdge cn) d"
      using cn(1,2) False by (subst removeWalkStore.simps) simp
    from Cons.IH [OF cn(2) cn(5) c1]
    obtain b h' as' cn' where r: "removeWalkStore h (Some c) (nextEdge cn) d = Some (b, h')"
      "edgeNodes h' c = Some cn'" "adjVertex cn' = adjVertex cn" "weight cn' = weight cn"
      "heapList h' (nextEdge cn') as' (walkedList d es1)" "set as' \<subseteq> set as1"
      "\<forall>x. x \<notin> set as1 \<and> x \<noteq> c \<longrightarrow> edgeNodes h' x = edgeNodes h x"
      "\<forall>x. edgeNodes h' x \<noteq> None \<longrightarrow> edgeNodes h x \<noteq> None"
      "vertexObjs h' = vertexObjs h" "graphObjs h' = graphObjs h" "nextAddr h' = nextAddr h"
      by blast
    have pe: "edgeNodes h' p = Some pn" using r(7) pc Cons.prems(1) by simp
    have wl: "walkedList d es = e # walkedList d es1"
      using es cn(3) False by (simp add: walkedList_step)
    have l: "heapList h' (nextEdge pn) (c # as') (walkedList d es)"
      unfolding wl using cn(1) r(2,3,4,5) cn(3,4) by simp
    have s: "set (c # as') \<subseteq> set (c # as1)" using r(6) by auto
    have f: "\<forall>x. x \<notin> set (c # as1) \<and> x \<noteq> p \<longrightarrow> edgeNodes h' x = edgeNodes h x"
      using r(7) by simp
    from w r(1) pe l s f r(8,9,10,11) show ?thesis
      by (intro exI [of _ b] exI [of _ h'] exI [of _ "c # as'"] exI [of _ pn]) simp
  qed
qed

lemma separateGraphs_slot_update:
  assumes ne: "this \<noteq> other" and al: "allocatedBelow h"
    and gF: "graphIs h other F fpF esF dpF lsF"
    and gG: "graphIs h this G fpG esG dpG lsG"
    and sep: "disjointFrom G fpG dpG F fpF dpF" and b: "inBounds s"
    and o': "graphObjs h' this = Some G'" and sz: "sizeObj G' = sizeObj G"
    and vp: "\<forall>k. k \<noteq> s \<longrightarrow> verticesPtr G' k = verticesPtr G k"
    and dps: "dataPtr (verticesPtr G' s) = dataPtr (verticesPtr G s)"
    and ls: "heapList h' (edgeHeadPtr (verticesPtr G' s)) as' es'"
    and sub: "\<forall>a \<in> set as'. a \<in> set (fpG s) \<or> nextAddr h \<le> a"
    and fr: "\<forall>a. a \<notin> set (fpG s) \<and> a < nextAddr h \<longrightarrow> edgeNodes h' a = edgeNodes h a"
    and alloc: "\<forall>a. edgeNodes h' a \<noteq> None \<longrightarrow> a < nextAddr h'"
    and v: "vertexObjs h' = vertexObjs h" and n: "nextAddr h \<le> nextAddr h'"
    and oth: "\<forall>obj. obj \<noteq> this \<longrightarrow> graphObjs h' obj = graphObjs h obj"
  shows "separateGraphs h' this (esG(s := es')) other F fpF esF dpF lsF"
proof -
  let ?M = "nextAddr h"
  from gG have G: "graphObjs h this = Some G" and nb: "sizeObj G < MAX_VERTICES"
    and oG: "ownsLists h G fpG esG" and lG: "ownsLabels h G dpG lsG"
    by (simp_all add: graphIs_def)
  from gF have F: "graphObjs h other = Some F" by (simp add: graphIs_def)
  have belowG: "\<And>i x. inBounds i \<Longrightarrow> x \<in> set (fpG i) \<Longrightarrow> x < ?M"
    using gG al by (rule graphIs_nodes_below)
  have belowF: "\<And>i x. inBounds i \<Longrightarrow> x \<in> set (fpF i) \<Longrightarrow> x < ?M"
    using gF al by (rule graphIs_nodes_below)
  have sepE: "\<And>i j. inBounds i \<Longrightarrow> inBounds j \<Longrightarrow> set (fpG i) \<inter> set (fpF j) = {}"
    using sep unfolding disjointFrom_def by blast
  have disG: "\<And>i j. inBounds i \<Longrightarrow> inBounds j \<Longrightarrow> i \<noteq> j \<Longrightarrow> set (fpG i) \<inter> set (fpG j) = {}"
    using oG unfolding ownsLists_def by blast
  have al': "allocatedBelow h'"
    unfolding allocatedBelow_def
  proof (intro conjI allI impI)
    fix a assume "edgeNodes h' a \<noteq> None"
    with alloc show "a < nextAddr h'" by simp
  next
    fix a assume "vertexObjs h' a \<noteq> None"
    with v al have "a < ?M" by (simp add: allocatedBelow_def)
    with n show "a < nextAddr h'" by simp
  qed
  have gF': "graphIs h' other F fpF esF dpF lsF"
    using gF
  proof (rule graphIs_frame)
    show "graphObjs h' other = Some F" using oth ne F by simp
    show "\<forall>i x. inBounds i \<and> x \<in> set (fpF i) \<longrightarrow> edgeNodes h' x = edgeNodes h x"
    proof (intro allI impI)
      fix i x assume ix: "inBounds i \<and> x \<in> set (fpF i)"
      with sepE [OF b, of i] have "x \<notin> set (fpG s)" by blast
      moreover from ix have "x < ?M" using belowF by blast
      ultimately show "edgeNodes h' x = edgeNodes h x" using fr by simp
    qed
    show "\<forall>i. 1 \<le> i \<and> i \<le> sizeObj F \<longrightarrow> vertexObjs h' (dpF i) = vertexObjs h (dpF i)"
      using v by simp
  qed
  let ?fp = "fpG(s := as')" and ?es = "esG(s := es')"
  have lists: "\<forall>k. inBounds k \<longrightarrow> heapList h' (edgeHeadPtr (verticesPtr G' k)) (?fp k) (?es k)"
  proof (intro allI impI)
    fix k assume k: "inBounds k"
    show "heapList h' (edgeHeadPtr (verticesPtr G' k)) (?fp k) (?es k)"
    proof (cases "k = s")
      case True
      with ls show ?thesis by simp
    next
      case False
      from oG k have l: "heapList h (edgeHeadPtr (verticesPtr G k)) (fpG k) (esG k)"
        by (simp add: ownsLists_def)
      have "\<forall>a \<in> set (fpG k). edgeNodes h' a = edgeNodes h a"
      proof
        fix a assume a: "a \<in> set (fpG k)"
        with disG [OF k b False] have "a \<notin> set (fpG s)" by blast
        moreover from a have "a < ?M" using belowG [OF k] by blast
        ultimately show "edgeNodes h' a = edgeNodes h a" using fr by simp
      qed
      from heapList_frame [OF this] l
      have "heapList h' (edgeHeadPtr (verticesPtr G k)) (fpG k) (esG k)" by simp
      with False vp show ?thesis by simp
    qed
  qed
  have new_other: "\<And>k. inBounds k \<Longrightarrow> k \<noteq> s \<Longrightarrow> set as' \<inter> set (fpG k) = {}"
  proof -
    fix k assume k: "inBounds k" "k \<noteq> s"
    have "\<forall>a \<in> set as'. a \<notin> set (fpG k)"
    proof
      fix a assume "a \<in> set as'"
      with sub have "a \<in> set (fpG s) \<or> ?M \<le> a" by blast
      then show "a \<notin> set (fpG k)"
      proof
        assume "a \<in> set (fpG s)"
        with disG [OF b k(1)] k(2) show ?thesis by blast
      next
        assume "?M \<le> a"
        with belowG [OF k(1), of a] show ?thesis by auto
      qed
    qed
    then show "set as' \<inter> set (fpG k) = {}" by blast
  qed
  have pair: "\<forall>k l. inBounds k \<and> inBounds l \<and> k \<noteq> l \<longrightarrow> set (?fp k) \<inter> set (?fp l) = {}"
  proof (intro allI impI)
    fix k l assume kl: "inBounds k \<and> inBounds l \<and> k \<noteq> l"
    show "set (?fp k) \<inter> set (?fp l) = {}"
    proof (cases "k = s")
      case True
      with kl new_other [of l] show ?thesis by simp
    next
      case False
      show ?thesis
      proof (cases "l = s")
        case True
        with kl False new_other [of k] show ?thesis by (simp add: Int_commute)
      next
        case lf: False
        with False kl disG show ?thesis by simp
      qed
    qed
  qed
  have dpk: "\<And>k. dataPtr (verticesPtr G' k) = dataPtr (verticesPtr G k)"
    using vp dps by metis
  have oG': "ownsLists h' G' ?fp ?es" unfolding ownsLists_def using lists pair by blast
  have lG': "ownsLabels h' G' dpG lsG"
    using lG unfolding ownsLabels_def sz v dpk by simp
  have gG': "graphIs h' this G' ?fp ?es dpG lsG"
    unfolding graphIs_def using o' sz nb oG' lG' by simp
  have sep': "disjointFrom G' ?fp dpG F fpF dpF"
    unfolding disjointFrom_def sz
  proof (intro conjI allI impI)
    fix i j assume ij: "inBounds i \<and> inBounds j"
    show "set (?fp i) \<inter> set (fpF j) = {}"
    proof (cases "i = s")
      case False
      with sepE ij show ?thesis by simp
    next
      case True
      have "\<forall>a \<in> set as'. a \<notin> set (fpF j)"
      proof
        fix a assume "a \<in> set as'"
        with sub have "a \<in> set (fpG s) \<or> ?M \<le> a" by blast
        then show "a \<notin> set (fpF j)"
        proof
          assume "a \<in> set (fpG s)"
          with sepE [OF b, of j] ij show ?thesis by blast
        next
          assume "?M \<le> a"
          with belowF [of j a] ij show ?thesis by auto
        qed
      qed
      with True show ?thesis by auto
    qed
  next
    fix i j assume "1 \<le> i \<and> i \<le> sizeObj G \<and> 1 \<le> j \<and> j \<le> sizeObj F"
    with sep show "dpG i \<noteq> dpF j" unfolding disjointFrom_def by blast
  qed
  show ?thesis unfolding separateGraphs_def using ne al' gF' gG' sep' by blast
qed

section \<open>Mutating one of two separate graphs\<close>

lemma insertEdgeStore_separate:
  assumes sg: "separateGraphs h this esG other F fpF esF dpF lsF" and b: "inBounds s"
  shows "\<exists>ok h'. insertEdgeStore h this s d w = Some (ok, h')
           \<and> separateGraphs h' this (listsAfter esG (InsertEdge s d w)) other F fpF esF dpF lsF"
proof (cases "w < 0")
  case True
  then show ?thesis using sg
    by (intro exI [of _ False] exI [of _ h]) (simp add: insertEdgeStore_def)
next
  case False
  from sg obtain G fpG dpG lsG where ne: "this \<noteq> other" and al: "allocatedBelow h"
    and gF: "graphIs h other F fpF esF dpF lsF"
    and gG: "graphIs h this G fpG esG dpG lsG"
    and sep: "disjointFrom G fpG dpG F fpF dpF"
    unfolding separateGraphs_def by blast
  let ?N = "nextAddr h"
  let ?new = "\<lparr>adjVertex = d, weight = w, nextEdge = None\<rparr>"
  let ?h1 = "newEdgeNode h ?new"
  from gG have G: "graphObjs h this = Some G" and oG: "ownsLists h G fpG esG"
    by (simp_all add: graphIs_def)
  from oG b have l: "heapList h (edgeHeadPtr (verticesPtr G s)) (fpG s) (esG s)"
    by (simp add: ownsLists_def)
  have below: "\<And>x. x \<in> set (fpG s) \<Longrightarrow> x < ?N"
    using graphIs_nodes_below [OF gG al b] by blast
  have e1: "edgeNodes ?h1 = (edgeNodes h)(?N \<mapsto> ?new)" "nextAddr ?h1 = Suc ?N"
    "vertexObjs ?h1 = vertexObjs h" "graphObjs ?h1 = graphObjs h"
    by (simp_all add: newEdgeNode_def)
  have a1: "\<forall>a. edgeNodes ?h1 a \<noteq> None \<longrightarrow> a < Suc ?N"
    using al unfolding e1 allocatedBelow_def by (auto simp: less_Suc_eq)
  have la: "listsAfter esG (InsertEdge s d w) = esG(s := insertedList d w (esG s))"
    using False by simp
  show ?thesis
  proof (cases "edgeHeadPtr (verticesPtr G s)")
    case None
    with l have e: "fpG s = []" "esG s = []" by (auto dest: heapList_null)
    let ?G' = "withEdgeHead G s (Some ?N)"
    let ?h' = "putGraph ?h1 this ?G'"
    have r: "insertEdgeStore h this s d w = Some (True, ?h')"
      using False b G None by (simp add: insertEdgeStore_def)
    have "separateGraphs ?h' this (esG(s := [\<lparr>adjVertex = d, weight = w\<rparr>])) other F fpF esF dpF lsF"
      using ne al gF gG sep b
    proof (rule separateGraphs_slot_update)
      show "graphObjs ?h' this = Some ?G'" by (simp add: putGraph_def)
      show "sizeObj ?G' = sizeObj G" by (simp add: withEdgeHead_def)
      show "\<forall>k. k \<noteq> s \<longrightarrow> verticesPtr ?G' k = verticesPtr G k" by (simp add: withEdgeHead_def)
      show "dataPtr (verticesPtr ?G' s) = dataPtr (verticesPtr G s)"
        by (simp add: withEdgeHead_def)
      show "heapList ?h' (edgeHeadPtr (verticesPtr ?G' s)) [?N] [\<lparr>adjVertex = d, weight = w\<rparr>]"
        by (simp add: withEdgeHead_def putGraph_def e1)
      show "\<forall>a \<in> set [?N]. a \<in> set (fpG s) \<or> ?N \<le> a" by simp
      show "\<forall>a. a \<notin> set (fpG s) \<and> a < ?N \<longrightarrow> edgeNodes ?h' a = edgeNodes h a"
        by (simp add: putGraph_def e1)
      show "\<forall>a. edgeNodes ?h' a \<noteq> None \<longrightarrow> a < nextAddr ?h'"
        using a1 by (simp add: putGraph_def e1)
      show "vertexObjs ?h' = vertexObjs h" by (simp add: putGraph_def e1)
      show "?N \<le> nextAddr ?h'" by (simp add: putGraph_def e1)
      show "\<forall>obj. obj \<noteq> this \<longrightarrow> graphObjs ?h' obj = graphObjs h obj"
        by (simp add: putGraph_def e1)
    qed
    moreover have "insertedList d w (esG s) = [\<lparr>adjVertex = d, weight = w\<rparr>]"
      using e by (simp add: insertedList_def)
    ultimately show ?thesis using r la
      by (intro exI [of _ True] exI [of _ ?h']) simp
  next
    case (Some current)
    have "\<forall>a \<in> set (fpG s). edgeNodes ?h1 a = edgeNodes h a" using below unfolding e1 by auto
    from heapList_frame [OF this] l Some
    have l1: "heapList ?h1 (Some current) (fpG s) (esG s)" by simp
    have n1: "edgeNodes ?h1 ?N = Some ?new" unfolding e1 by simp
    have nn: "?N \<notin> set (fpG s)" using below by auto
    from insertWalkStore_result [OF l1 n1 nn]
    obtain h' as' where w: "insertWalkStore ?h1 current ?N d w = Some (True, h')"
      "heapList h' (Some current) as' (insertedList d w (esG s))"
      "set as' \<subseteq> insert ?N (set (fpG s))"
      "\<forall>a. a \<notin> set (fpG s) \<and> a \<noteq> ?N \<longrightarrow> edgeNodes h' a = edgeNodes ?h1 a"
      "\<forall>a. edgeNodes h' a \<noteq> None \<longrightarrow> edgeNodes ?h1 a \<noteq> None"
      "vertexObjs h' = vertexObjs ?h1" "graphObjs h' = graphObjs ?h1" "nextAddr h' = nextAddr ?h1"
      by blast
    have r: "insertEdgeStore h this s d w = Some (True, h')"
      using False b G Some w(1) by (simp add: insertEdgeStore_def)
    have "separateGraphs h' this (esG(s := insertedList d w (esG s))) other F fpF esF dpF lsF"
      using ne al gF gG sep b
    proof (rule separateGraphs_slot_update)
      show "graphObjs h' this = Some G" using w(7) G unfolding e1 by simp
      show "sizeObj G = sizeObj G" by simp
      show "\<forall>k. k \<noteq> s \<longrightarrow> verticesPtr G k = verticesPtr G k" by simp
      show "dataPtr (verticesPtr G s) = dataPtr (verticesPtr G s)" by simp
      show "heapList h' (edgeHeadPtr (verticesPtr G s)) as' (insertedList d w (esG s))"
        using w(2) Some by simp
      show "\<forall>a \<in> set as'. a \<in> set (fpG s) \<or> ?N \<le> a" using w(3) by auto
      show "\<forall>a. a \<notin> set (fpG s) \<and> a < ?N \<longrightarrow> edgeNodes h' a = edgeNodes h a"
        using w(4) unfolding e1 by simp
      show "\<forall>a. edgeNodes h' a \<noteq> None \<longrightarrow> a < nextAddr h'"
        using w(5) a1 unfolding w(8) e1(2) by blast
      show "vertexObjs h' = vertexObjs h" using w(6) unfolding e1 .
      show "?N \<le> nextAddr h'" unfolding w(8) e1 by simp
      show "\<forall>obj. obj \<noteq> this \<longrightarrow> graphObjs h' obj = graphObjs h obj"
        unfolding w(7) e1 by simp
    qed
    with r la show ?thesis
      by (intro exI [of _ True] exI [of _ h']) simp
  qed
qed

lemma removeEdgeStore_separate:
  assumes sg: "separateGraphs h this esG other F fpF esF dpF lsF" and b: "inBounds s"
  shows "\<exists>ok h'. removeEdgeStore h this s d = Some (ok, h')
           \<and> separateGraphs h' this (listsAfter esG (RemoveEdge s d)) other F fpF esF dpF lsF"
proof -
  from sg obtain G fpG dpG lsG where ne: "this \<noteq> other" and al: "allocatedBelow h"
    and gF: "graphIs h other F fpF esF dpF lsF"
    and gG: "graphIs h this G fpG esG dpG lsG"
    and sep: "disjointFrom G fpG dpG F fpF dpF"
    unfolding separateGraphs_def by blast
  let ?N = "nextAddr h"
  from gG have G: "graphObjs h this = Some G" and oG: "ownsLists h G fpG esG"
    by (simp_all add: graphIs_def)
  from oG b have l: "heapList h (edgeHeadPtr (verticesPtr G s)) (fpG s) (esG s)"
    by (simp add: ownsLists_def)
  have ae: "\<forall>a. edgeNodes h a \<noteq> None \<longrightarrow> a < ?N" using al by (simp add: allocatedBelow_def)
  have la: "listsAfter esG (RemoveEdge s d) = esG(s := removedList d (esG s))" by simp
  show ?thesis
  proof (cases "edgeHeadPtr (verticesPtr G s)")
    case None
    with l have e: "fpG s = []" "esG s = []" by (auto dest: heapList_null)
    have r: "removeEdgeStore h this s d = Some (False, h)"
      using b G None by (simp add: removeEdgeStore_def)
    have "esG(s := removedList d (esG s)) = esG"
      using e(2) fun_upd_triv [of esG s] by (simp add: removedList_def)
    with r la sg show ?thesis
      by (intro exI [of _ False] exI [of _ h]) simp
  next
    case (Some current)
    with l have "heapList h (Some current) (fpG s) (esG s)" by simp
    from heapList_cons [OF this] obtain as1 e es1 hn where
      c: "fpG s = current # as1" "esG s = e # es1" "edgeNodes h current = Some hn"
      "adjVertex hn = adjVertex e" "weight hn = weight e" "heapList h (nextEdge hn) as1 es1"
      by blast
    from l have "distinct (fpG s)" by (rule heapList_distinct)
    with c(1) have cn: "current \<notin> set as1" by simp
    show ?thesis
    proof (cases "adjVertex hn = d")
      case True
      let ?G' = "withEdgeHead G s (nextEdge hn)"
      let ?h' = "(putGraph h this ?G')\<lparr>edgeNodes := (edgeNodes h)(current := None)\<rparr>"
      have r: "removeEdgeStore h this s d = Some (True, ?h')"
        using b G Some c(3) True by (simp add: removeEdgeStore_def)
      have rl: "removedList d (esG s) = es1" using c(2,4) True by (simp add: removedList_def)
      have "separateGraphs ?h' this (esG(s := es1)) other F fpF esF dpF lsF"
        using ne al gF gG sep b
      proof (rule separateGraphs_slot_update)
        show "graphObjs ?h' this = Some ?G'" by (simp add: putGraph_def)
        show "sizeObj ?G' = sizeObj G" by (simp add: withEdgeHead_def)
        show "\<forall>k. k \<noteq> s \<longrightarrow> verticesPtr ?G' k = verticesPtr G k"
          by (simp add: withEdgeHead_def)
        show "dataPtr (verticesPtr ?G' s) = dataPtr (verticesPtr G s)"
          by (simp add: withEdgeHead_def)
        have "\<forall>a \<in> set as1. edgeNodes ?h' a = edgeNodes h a" using cn by auto
        from heapList_frame [OF this] c(6)
        show "heapList ?h' (edgeHeadPtr (verticesPtr ?G' s)) as1 es1"
          by (simp add: withEdgeHead_def)
        show "\<forall>a \<in> set as1. a \<in> set (fpG s) \<or> ?N \<le> a" using c(1) by simp
        show "\<forall>a. a \<notin> set (fpG s) \<and> a < ?N \<longrightarrow> edgeNodes ?h' a = edgeNodes h a"
          using c(1) by simp
        show "\<forall>a. edgeNodes ?h' a \<noteq> None \<longrightarrow> a < nextAddr ?h'"
          using ae by (simp add: putGraph_def)
        show "vertexObjs ?h' = vertexObjs h" by (simp add: putGraph_def)
        show "?N \<le> nextAddr ?h'" by (simp add: putGraph_def)
        show "\<forall>obj. obj \<noteq> this \<longrightarrow> graphObjs ?h' obj = graphObjs h obj"
          by (simp add: putGraph_def)
      qed
      with r la rl show ?thesis
        by (intro exI [of _ True] exI [of _ ?h']) simp
    next
      case False
      have u: "removeEdgeStore h this s d = removeWalkStore h (Some current) (nextEdge hn) d"
      proof -
        have "removeEdgeStore h this s d = removeWalkStore h None (Some current) d"
          using b G Some c(3) False by (simp add: removeEdgeStore_def)
        also have "\<dots> = removeWalkStore h (Some current) (nextEdge hn) d"
          using c(3) False by (subst removeWalkStore.simps) simp
        finally show ?thesis .
      qed
      from removeWalkStore_result [OF c(3) c(6) cn]
      obtain ok h' as' pn' where w:
        "removeWalkStore h (Some current) (nextEdge hn) d = Some (ok, h')"
        "edgeNodes h' current = Some pn'" "adjVertex pn' = adjVertex hn" "weight pn' = weight hn"
        "heapList h' (nextEdge pn') as' (walkedList d es1)" "set as' \<subseteq> set as1"
        "\<forall>a. a \<notin> set as1 \<and> a \<noteq> current \<longrightarrow> edgeNodes h' a = edgeNodes h a"
        "\<forall>a. edgeNodes h' a \<noteq> None \<longrightarrow> edgeNodes h a \<noteq> None"
        "vertexObjs h' = vertexObjs h" "graphObjs h' = graphObjs h" "nextAddr h' = nextAddr h"
        by blast
      have rl: "removedList d (esG s) = e # walkedList d es1"
        using c(2,4) False by (simp add: removedList_walked walkedList_step)
      have "separateGraphs h' this (esG(s := e # walkedList d es1)) other F fpF esF dpF lsF"
        using ne al gF gG sep b
      proof (rule separateGraphs_slot_update)
        show "graphObjs h' this = Some G" using w(10) G by simp
        show "sizeObj G = sizeObj G" by simp
        show "\<forall>k. k \<noteq> s \<longrightarrow> verticesPtr G k = verticesPtr G k" by simp
        show "dataPtr (verticesPtr G s) = dataPtr (verticesPtr G s)" by simp
        show "heapList h' (edgeHeadPtr (verticesPtr G s)) (current # as') (e # walkedList d es1)"
          using Some w(2,3,4,5) c(4,5) by simp
        show "\<forall>a \<in> set (current # as'). a \<in> set (fpG s) \<or> ?N \<le> a" using w(6) c(1) by auto
        show "\<forall>a. a \<notin> set (fpG s) \<and> a < ?N \<longrightarrow> edgeNodes h' a = edgeNodes h a"
          using w(7) c(1) by simp
        show "\<forall>a. edgeNodes h' a \<noteq> None \<longrightarrow> a < nextAddr h'"
          using w(8) ae unfolding w(11) by blast
        show "vertexObjs h' = vertexObjs h" by (rule w(9))
        show "?N \<le> nextAddr h'" unfolding w(11) by simp
        show "\<forall>obj. obj \<noteq> this \<longrightarrow> graphObjs h' obj = graphObjs h obj"
          unfolding w(10) by simp
      qed
      with u w(1) la rl show ?thesis
        by (intro exI [of _ ok] exI [of _ h']) simp
    qed
  qed
qed

lemma applyMutations_separate:
  "separateGraphs h this esG other F fpF esF dpF lsF \<Longrightarrow>
   list_all (\<lambda>m. inBounds (sourceOf m)) ms \<Longrightarrow>
   \<exists>h'. applyMutations h this ms = Some h'
       \<and> separateGraphs h' this (foldl listsAfter esG ms) other F fpF esF dpF lsF"
proof (induction ms arbitrary: h esG)
  case Nil
  then show ?case by simp
next
  case (Cons m ms)
  from Cons.prems(2) have b: "inBounds (sourceOf m)"
    and r: "list_all (\<lambda>m. inBounds (sourceOf m)) ms" by simp_all
  have "\<exists>h1. applyMutation h this m = Some h1
          \<and> separateGraphs h1 this (listsAfter esG m) other F fpF esF dpF lsF"
  proof (cases m)
    case (InsertEdge s d w)
    with b have "inBounds s" by simp
    from insertEdgeStore_separate [OF Cons.prems(1) this, of d w] InsertEdge
    show ?thesis by auto
  next
    case (RemoveEdge s d)
    with b have "inBounds s" by simp
    from removeEdgeStore_separate [OF Cons.prems(1) this, of d] RemoveEdge
    show ?thesis by auto
  qed
  then obtain h1 where h1: "applyMutation h this m = Some h1"
    "separateGraphs h1 this (listsAfter esG m) other F fpF esF dpF lsF" by blast
  from Cons.IH [OF h1(2) r] obtain h' where
    "applyMutations h1 this ms = Some h'"
    "separateGraphs h' this (foldl listsAfter (listsAfter esG m) ms) other F fpF esF dpF lsF"
    by blast
  with h1(1) show ?case by simp
qed

section \<open>Copies share nothing with their source\<close>

lemma independentCopy_intro:
  assumes ne: "this \<noteq> other" and al: "allocatedBelow h"
    and gF: "graphIs h other F fpF esF dpF lsF"
    and gG: "graphIs h this G' fp' es' dp' lsF"
    and sz: "sizeObj G' = sizeObj F"
    and es: "\<forall>i. 1 \<le> i \<and> i \<le> sizeObj F \<longrightarrow> es' i = esF i"
    and tb: "\<forall>r c. inBounds r \<and> inBounds c \<longrightarrow> tableObj G' r c = tableObj F r c"
    and sep: "disjointFrom G' fp' dp' F fpF dpF"
  shows "independentCopy h this other F fpF esF dpF lsF"
proof -
  have sg: "separateGraphs h this es' other F fpF esF dpF lsF"
    unfolding separateGraphs_def using ne al gF gG sep by blast
  have m: "\<forall>ms. list_all (\<lambda>m. inBounds (sourceOf m)) ms \<longrightarrow>
           (\<exists>h'. applyMutations h this ms = Some h' \<and> graphIs h' other F fpF esF dpF lsF)"
  proof (intro allI impI)
    fix ms assume "list_all (\<lambda>m. inBounds (sourceOf m)) ms"
    from applyMutations_separate [OF sg this]
    show "\<exists>h'. applyMutations h this ms = Some h' \<and> graphIs h' other F fpF esF dpF lsF"
      unfolding separateGraphs_def by blast
  qed
  have c: "\<exists>h'. clearGraphStore h this = Some h' \<and> graphIs h' other F fpF esF dpF lsF"
    using clearGraphStore_result [OF gG] clearedStore_other [OF ne gF gG sep] by blast
  show ?thesis unfolding independentCopy_def using gF gG sz es tb sep m c by blast
qed

text \<open>
  C9: let \<open>F\<close> be a graph object at \<open>fromGraph\<close> whose slots hold well-formed lists and whose
  slots \<open>1..size\<close> hold labels, in a store where every live object is below the allocation
  counter, and let \<open>this\<close> be another address.  Assigning \<open>fromGraph\<close> to a graph at \<open>this\<close>
  that shares nothing with it, and copy-constructing into storage at \<open>this\<close>, both return and
  leave at \<open>this\<close> an independent copy in the sense of \<open>independentCopy\<close>; assigning a graph
  to itself returns the store unchanged.
\<close>

theorem copies_share_nothing:
  assumes "this \<noteq> fromGraph" and "graphIs h fromGraph F fpF esF dpF lsF" and "allocatedBelow h"
  shows "(graphIs h this G fpG esG dpG lsG \<and> disjointFrom G fpG dpG F fpF dpF \<longrightarrow>
            (\<exists>h'. operatorAssign h this fromGraph = Some h'
                 \<and> independentCopy h' this fromGraph F fpF esF dpF lsF))
       \<and> (graphObjs h this = Some G \<longrightarrow>
            (\<exists>h'. copyConstructor h this fromGraph = Some h'
                 \<and> independentCopy h' this fromGraph F fpF esF dpF lsF))
       \<and> operatorAssign h fromGraph fromGraph = Some h"
proof (intro conjI impI)
  assume a: "graphIs h this G fpG esG dpG lsG \<and> disjointFrom G fpG dpG F fpF dpF"
  from operatorAssign_result [OF assms(1) assms(2) _ _ assms(3)] a
  obtain h' G' fp' es' dp' where r: "operatorAssign h this fromGraph = Some h'"
    "graphIs h' fromGraph F fpF esF dpF lsF" "graphIs h' this G' fp' es' dp' lsF"
    "sizeObj G' = sizeObj F" "\<forall>i. 1 \<le> i \<and> i \<le> sizeObj F \<longrightarrow> es' i = esF i"
    "\<forall>r c. inBounds r \<and> inBounds c \<longrightarrow> tableObj G' r c = tableObj F r c"
    "disjointFrom G' fp' dp' F fpF dpF" "allocatedBelow h'" by blast
  have "independentCopy h' this fromGraph F fpF esF dpF lsF"
    using assms(1) r(8) r(2) r(3) r(4) r(5) r(6) r(7) by (rule independentCopy_intro)
  with r(1) show "\<exists>h'. operatorAssign h this fromGraph = Some h'
                 \<and> independentCopy h' this fromGraph F fpF esF dpF lsF" by blast
next
  assume a: "graphObjs h this = Some G"
  from copyConstructor_result [OF assms(1) assms(2) a assms(3)]
  obtain h' G' fp' es' dp' where r: "copyConstructor h this fromGraph = Some h'"
    "graphIs h' fromGraph F fpF esF dpF lsF" "graphIs h' this G' fp' es' dp' lsF"
    "sizeObj G' = sizeObj F" "\<forall>i. 1 \<le> i \<and> i \<le> sizeObj F \<longrightarrow> es' i = esF i"
    "\<forall>r c. inBounds r \<and> inBounds c \<longrightarrow> tableObj G' r c = tableObj F r c"
    "disjointFrom G' fp' dp' F fpF dpF" "allocatedBelow h'" by blast
  have "independentCopy h' this fromGraph F fpF esF dpF lsF"
    using assms(1) r(8) r(2) r(3) r(4) r(5) r(6) r(7) by (rule independentCopy_intro)
  with r(1) show "\<exists>h'. copyConstructor h this fromGraph = Some h'
                 \<and> independentCopy h' this fromGraph F fpF esF dpF lsF" by blast
next
  show "operatorAssign h fromGraph fromGraph = Some h" by (simp add: operatorAssign_def)
qed

lemma graphIs_S3_F3: "graphIs S3 0 F3 fp3 es3 dp3 ls3"
  unfolding graphIs_def ownsLists_def ownsLabels_def
  by (auto simp: S3_def F3_def fp3_def es3_def dp3_def ls3_def MAX_VERTICES_def)

lemma graphIs_S3_E0: "graphIs S3 1 E0 (\<lambda>i. []) (\<lambda>i. []) (\<lambda>i. 0) (\<lambda>i. [])"
  unfolding graphIs_def ownsLists_def ownsLabels_def
  by (auto simp: S3_def E0_def MAX_VERTICES_def)

lemma allocatedBelow_S3: "allocatedBelow S3"
  unfolding allocatedBelow_def by (auto simp: S3_def split: if_splits)

theorem copies_share_nothing_witness:
  "(1 :: addr) \<noteq> 0 \<and> graphIs S3 0 F3 fp3 es3 dp3 ls3 \<and> allocatedBelow S3
   \<and> graphIs S3 1 E0 (\<lambda>i. []) (\<lambda>i. []) (\<lambda>i. 0) (\<lambda>i. [])
   \<and> disjointFrom E0 (\<lambda>i. []) (\<lambda>i. 0) F3 fp3 dp3
   \<and> (\<exists>h'. operatorAssign S3 1 0 = Some h' \<and> independentCopy h' 1 0 F3 fp3 es3 dp3 ls3)
   \<and> graphObjs S3 1 = Some E0
   \<and> (\<exists>h'. copyConstructor S3 1 0 = Some h' \<and> independentCopy h' 1 0 F3 fp3 es3 dp3 ls3)
   \<and> operatorAssign S3 0 0 = Some S3"
proof -
  have ne: "(1 :: addr) \<noteq> 0" by simp
  have d: "disjointFrom E0 (\<lambda>i. []) (\<lambda>i. 0) F3 fp3 dp3"
    by (simp add: disjointFrom_def E0_def)
  have g: "graphObjs S3 1 = Some E0" by (simp add: S3_def)
  from copies_share_nothing [OF ne graphIs_S3_F3 allocatedBelow_S3,
      of E0 "\<lambda>i. []" "\<lambda>i. []" "\<lambda>i. 0" "\<lambda>i. []"]
    ne graphIs_S3_F3 allocatedBelow_S3 graphIs_S3_E0 d g
  show ?thesis by blast
qed

end
